theory Spec2Isabelle
  imports Complex_Main
begin

text \<open>
  A shallow embedding of the music-video pipeline of the Wan2GP operator scripts: tempo
  inference (\<open>music_analyze.py\<close>), shot planning (\<open>music_plan.py\<close>), the generation
  schedule (\<open>music_generate.py\<close>) and clip selection for assembly
  (\<open>music_assemble_ffmpeg.py\<close>). The model comes first, then the vocabulary the
  properties are stated in, then the properties with their proofs.
\<close>

section \<open>Text helpers shared by the scripts\<close>

text \<open>
  A Python string is modelled as the list of the bytes of its UTF-8 encoding.
  \<open>str.lower\<close> is modelled on the ASCII letters, the bytes of other characters staying as
  they are. The scripts only compare lowered strings with ASCII literals, and these
  comparisons come out as in Python: the only characters outside ASCII that \<open>str.lower\<close>
  maps to text with an ASCII letter are U+212A, to \<open>k\<close>, and U+0130, to \<open>i\<close> followed by
  U+0307, and no literal compared against has a \<open>k\<close>, or an \<open>i\<close> followed by U+0307.
\<close>

definition lower_char :: "char \<Rightarrow> char" where
  "lower_char c =
     (case map_of (zip ''ABCDEFGHIJKLMNOPQRSTUVWXYZ'' ''abcdefghijklmnopqrstuvwxyz'') c of
        None \<Rightarrow> c
      | Some d \<Rightarrow> d)"

definition lower :: "string \<Rightarrow> string" where
  "lower s = map lower_char s"

text \<open>\<open>needle in text\<close> on strings.\<close>

fun starts_with :: "string \<Rightarrow> string \<Rightarrow> bool" where
  "starts_with [] text = True"
| "starts_with (p # ps) [] = False"
| "starts_with (p # ps) (c # cs) = (p = c \<and> starts_with ps cs)"

fun contains :: "string \<Rightarrow> string \<Rightarrow> bool" where
  "contains needle [] = (needle = [])"
| "contains needle (c # cs) = (starts_with needle (c # cs) \<or> contains needle cs)"

text \<open>
  \<open>str.strip()\<close> removes from both ends the characters for which \<open>str.isspace()\<close>
  holds: the ASCII white space (U+0009 to U+000D, U+001C to U+0020) and U+0085, U+00A0,
  U+1680, U+2000 to U+200A, U+2028, U+2029, U+202F, U+205F and U+3000, here by their
  encodings.
\<close>

definition white_space :: "string list" where
  "white_space =
     map (\<lambda>c. [c])
       [CHR 0x09, CHR 0x0A, CHR 0x0B, CHR 0x0C, CHR 0x0D, CHR 0x1C, CHR 0x1D, CHR 0x1E,
        CHR 0x1F, CHR 0x20] @
     map (\<lambda>c. [CHR 0xC2, c]) [CHR 0x85, CHR 0xA0] @
     map (\<lambda>c. [CHR 0xE1, CHR 0x9A, c]) [CHR 0x80] @
     map (\<lambda>c. [CHR 0xE2, CHR 0x80, c])
       [CHR 0x80, CHR 0x81, CHR 0x82, CHR 0x83, CHR 0x84, CHR 0x85, CHR 0x86, CHR 0x87,
        CHR 0x88, CHR 0x89, CHR 0x8A, CHR 0xA8, CHR 0xA9, CHR 0xAF] @
     map (\<lambda>c. [CHR 0xE2, CHR 0x81, c]) [CHR 0x9F] @
     map (\<lambda>c. [CHR 0xE3, CHR 0x80, c]) [CHR 0x80]"

text \<open>Removing, from the front of a string, every leading occurrence of one of the given
  non-empty words.\<close>

function strip_front :: "string list \<Rightarrow> string \<Rightarrow> string" where
  "strip_front ws s =
     (case find (\<lambda>w. w \<noteq> [] \<and> starts_with w s) ws of
        None \<Rightarrow> s
      | Some w \<Rightarrow> strip_front ws (drop (length w) s))"
  by pat_completeness auto
termination
proof (relation "measure (\<lambda>(ws, s). length s)")
  show "wf (measure (\<lambda>(ws :: string list, s :: string). length s))" by simp
next
  fix ws :: "string list" and s w :: string
  assume "find (\<lambda>w. w \<noteq> [] \<and> starts_with w s) ws = Some w"
  then have w: "w \<noteq> []" "starts_with w s" by (auto simp: find_Some_iff)
  then have "s \<noteq> []" by (cases w; cases s) simp_all
  with w(1) show "((ws, drop (length w) s), (ws, s)) \<in> measure (\<lambda>(ws, s). length s)"
    by simp
qed

declare strip_front.simps [simp del]

definition strip :: "string \<Rightarrow> string" where
  "strip s = rev (strip_front (map rev white_space) (rev (strip_front white_space s)))"

fun join :: "string \<Rightarrow> string list \<Rightarrow> string" where
  "join sep [] = []"
| "join sep [x] = x"
| "join sep (x # y # rest) = x @ sep @ join sep (y # rest)"

text \<open>The decimal digits of a number, and \<open>f"{n:03d}"\<close>.\<close>

fun decimal :: "nat \<Rightarrow> string" where
  "decimal n =
     (if n < 10 then [''0123456789'' ! n]
      else decimal (n div 10) @ [''0123456789'' ! (n mod 10)])"

declare decimal.simps [simp del]

definition format_03d :: "nat \<Rightarrow> string" where
  "format_03d n = (let s = decimal n in replicate (3 - length s) CHR ''0'' @ s)"

section \<open>Numbers\<close>

text \<open>
  Python floats are modelled as exact reals. \<open>round(x, n)\<close> rounds to the nearest multiple
  of \<open>10 ^ -n\<close>, a tie going to the even neighbour.
\<close>

definition round_half_even :: "real \<Rightarrow> int" where
  "round_half_even x =
     (let f = \<lfloor>x\<rfloor>; r = x - of_int f
      in if r < 1 / 2 then f else if 1 / 2 < r then f + 1 else if even f then f else f + 1)"

definition py_round :: "real \<Rightarrow> nat \<Rightarrow> real" where
  "py_round x ndigits = of_int (round_half_even (x * 10 ^ ndigits)) / 10 ^ ndigits"

text \<open>\<open>statistics.median\<close>; both callers call it on a non-empty list only.\<close>

definition median :: "real list \<Rightarrow> real" where
  "median data =
     (let s = sort data; n = length s
      in if odd n then s ! (n div 2) else (s ! (n div 2 - 1) + s ! (n div 2)) / 2)"

text \<open>\<open>[beats[i + 1] - beats[i] for i in range(len(beats) - 1)]\<close>\<close>

fun intervals :: "real list \<Rightarrow> real list" where
  "intervals (a # b # rest) = (b - a) # intervals (b # rest)"
| "intervals _ = []"

section \<open>Analysis: \<open>music_analyze.py\<close>\<close>

fun clip_round :: "real list \<Rightarrow> real \<Rightarrow> real list" where
  "clip_round [] duration = []"
| "clip_round (v # vs) duration =
     (if v < 0 then clip_round vs duration
      else if v > duration then clip_round vs duration
      else py_round v 4 # clip_round vs duration)"

definition fallback_beats :: "real \<Rightarrow> real \<times> real list" where
  "fallback_beats duration_seconds =
     (let bpm = 120;
          beat_interval = 60 / bpm;
          beat_count = max 1 \<lfloor>duration_seconds / beat_interval\<rfloor>;
          beats = map (\<lambda>i. of_int i * beat_interval) [0..beat_count - 1]
      in (bpm, clip_round beats duration_seconds))"

definition infer_bpm_from_beats :: "real list \<Rightarrow> real \<Rightarrow> real" where
  "infer_bpm_from_beats beats fallback_bpm =
     (if length beats < 3 then fallback_bpm
      else let ivs = filter (\<lambda>x. 0 < x) (intervals beats)
           in if ivs = [] then fallback_bpm
              else let med = median ivs
                   in if med \<le> 0 then fallback_bpm
                      else let bpm = 60 / med
                           in if bpm < 40 \<or> 220 < bpm then fallback_bpm else bpm)"

text \<open>
  The tempo part of \<open>_try_librosa_analysis\<close>: \<open>tempo\<close> and \<open>beat_times\<close> are what the
  beat tracker returned. The result is the \<open>"bpm"\<close> and \<open>"beats"\<close> entries of the
  analysis.
\<close>

definition librosa_tempo :: "real \<Rightarrow> real list \<Rightarrow> real \<Rightarrow> real \<times> real list" where
  "librosa_tempo tempo beat_times duration_seconds =
     (let bpm = tempo;
          beats = clip_round beat_times duration_seconds;
          (bpm, beats) =
            (if length beats < 4 then fallback_beats duration_seconds
             else (infer_bpm_from_beats beats (max 1 bpm), beats))
      in (py_round bpm 3, beats))"

section \<open>Assembly: \<open>music_assemble_ffmpeg.py\<close>\<close>

text \<open>
  A take of the manifest is a JSON object read with \<open>dict.get\<close>; a key that is absent
  or \<open>null\<close> is \<open>None\<close> here. The file system is the pair of operations the script
  uses on a path: \<open>Path(..).expanduser().resolve()\<close> and \<open>Path.exists\<close>.
\<close>

record take =
  take_status :: "string option"
  take_video_file :: "string option"
  take_quality_score :: "real option"

record filesystem =
  resolve :: "string \<Rightarrow> string"
  path_exists :: "string \<Rightarrow> bool"

definition status_text :: "take \<Rightarrow> string" where
  "status_text t = (case take_status t of None \<Rightarrow> [] | Some s \<Rightarrow> s)"

text \<open>\<open>float(take.get("quality_score", 0.0) or 0.0)\<close>\<close>

definition take_score :: "take \<Rightarrow> real" where
  "take_score t =
     (case take_quality_score t of None \<Rightarrow> 0 | Some s \<Rightarrow> (if s = 0 then 0 else s))"

text \<open>The loop of \<open>_best_take\<close> that fills \<open>candidates\<close>, one \<open>continue\<close> per branch.\<close>

fun collect_candidates :: "filesystem \<Rightarrow> take list \<Rightarrow> (real \<times> take) list" where
  "collect_candidates fs [] = []"
| "collect_candidates fs (t # ts) =
     (if lower (status_text t) \<noteq> ''success'' then collect_candidates fs ts
      else case take_video_file t of
             None \<Rightarrow> collect_candidates fs ts
           | Some video_file \<Rightarrow>
               if video_file = [] then collect_candidates fs ts
               else if \<not> path_exists fs (resolve fs video_file) then collect_candidates fs ts
               else (take_score t, t) # collect_candidates fs ts)"

text \<open>
  \<open>candidates.sort(key=lambda item: item[0], reverse=True)\<close> is a stable sort in
  descending key order: equal keys keep their relative order. \<open>sort_key\<close> is the
  stable insertion sort of the library, here on the negated key.
\<close>

definition best_take :: "filesystem \<Rightarrow> take list \<Rightarrow> take option" where
  "best_take fs takes =
     (case sort_key (\<lambda>item. - fst item) (collect_candidates fs takes) of
        [] \<Rightarrow> None
      | item # _ \<Rightarrow> Some (snd item))"

text \<open>A take the selection can pick: status success and an existing video file.\<close>

definition usable :: "filesystem \<Rightarrow> take \<Rightarrow> bool" where
  "usable fs t \<longleftrightarrow>
     lower (status_text t) = ''success'' \<and>
     (case take_video_file t of
        None \<Rightarrow> False
      | Some video_file \<Rightarrow> video_file \<noteq> [] \<and> path_exists fs (resolve fs video_file))"

record shot_entry =
  shot_takes :: "take list option"

record manifest =
  manifest_shots :: "shot_entry list option"
  manifest_clips :: "string list option"

text \<open>
  The first loop of \<open>_select_clip_paths\<close>. \<open>shot_takes\<close> is \<open>None\<close> when the value under
  \<open>"takes"\<close> is not a list (the \<open>continue\<close> of the source); an absent key reads as the
  empty list.
\<close>

fun shot_clips :: "filesystem \<Rightarrow> shot_entry list \<Rightarrow> string list" where
  "shot_clips fs [] = []"
| "shot_clips fs (shot # shots) =
     (case shot_takes shot of
        None \<Rightarrow> shot_clips fs shots
      | Some takes \<Rightarrow>
          (case best_take fs takes of
             None \<Rightarrow> shot_clips fs shots
           | Some best \<Rightarrow>
               resolve fs (case take_video_file best of None \<Rightarrow> ''None'' | Some v \<Rightarrow> v)
                 # shot_clips fs shots))"

text \<open>The second loop: the raw \<open>"clips"\<close> list, read only when no shot gave a clip.\<close>

fun raw_clips :: "filesystem \<Rightarrow> string list \<Rightarrow> string list" where
  "raw_clips fs [] = []"
| "raw_clips fs (v # vs) =
     (if path_exists fs (resolve fs v) then resolve fs v # raw_clips fs vs
      else raw_clips fs vs)"

definition select_clip_paths :: "filesystem \<Rightarrow> manifest \<Rightarrow> int option \<Rightarrow> string list" where
  "select_clip_paths fs m max_clips =
     (let clips = (case manifest_shots m of None \<Rightarrow> [] | Some shots \<Rightarrow> shot_clips fs shots);
          clips = (if clips = []
                   then (case manifest_clips m of None \<Rightarrow> [] | Some raw \<Rightarrow> raw_clips fs raw)
                   else clips)
      in case max_clips of
           None \<Rightarrow> clips
         | Some k \<Rightarrow> take (nat (max 1 k)) clips)"

text \<open>
  \<open>main\<close> up to the clip check. The checks that come first are the four
  \<open>FileNotFoundError\<close>s; what they read from the machine is the record \<open>assemble_env\<close>.
\<close>

datatype assemble_error =
  FfmpegNotFound | FfprobeNotFound | AudioNotFound | ManifestNotFound | NoSuccessfulClips

record assemble_env =
  ffmpeg_on_path :: bool
  ffprobe_on_path :: bool
  audio_exists :: bool
  manifest_exists :: bool

definition main_clip_paths ::
  "assemble_env \<Rightarrow> filesystem \<Rightarrow> manifest \<Rightarrow> int option \<Rightarrow> assemble_error + string list" where
  "main_clip_paths env fs m max_clips =
     (if \<not> ffmpeg_on_path env then Inl FfmpegNotFound
      else if \<not> ffprobe_on_path env then Inl FfprobeNotFound
      else if \<not> audio_exists env then Inl AudioNotFound
      else if \<not> manifest_exists env then Inl ManifestNotFound
      else let clip_paths = select_clip_paths fs m max_clips
           in if clip_paths = [] then Inl NoSuccessfulClips else Inr clip_paths)"

section \<open>Generation: \<open>music_generate.py\<close>\<close>

record plan_shot =
  planned_takes :: "int option"

text \<open>\<open>_takes_for_shot\<close>; \<open>int(shot.get("takes", 1) or 1)\<close> reads an absent, null or zero
  value as 1.\<close>

definition takes_for_shot :: "plan_shot \<Rightarrow> int option \<Rightarrow> int" where
  "takes_for_shot shot max_takes_per_shot =
     (let planned = (case planned_takes shot of None \<Rightarrow> 1 | Some k \<Rightarrow> if k = 0 then 1 else k);
          planned = max 1 planned
      in case max_takes_per_shot of
           Some m \<Rightarrow> min planned (max 1 m)
         | None \<Rightarrow> planned)"

datatype generate_error =
  PlanNotFound | NoShots | WanRootRequired | WanRootNotFound | WgpNotFound

record generate_env =
  plan_exists :: bool
  execute_generation :: bool
  wan_root_given :: bool
  wan_root_exists :: bool
  wgp_exists :: bool

text \<open>
  \<open>main\<close> of the generation stage, as the schedule of its loop over shots and takes: the shots it
  processes, each with the take indices \<open>range(1, takes + 1)\<close> it attempts. The plan's
  \<open>"shots"\<close> value is \<open>None\<close> when it is not a list.
\<close>

definition main_schedule ::
  "generate_env \<Rightarrow> plan_shot list option \<Rightarrow> int option \<Rightarrow> int option \<Rightarrow>
     generate_error + (plan_shot \<times> int list) list" where
  "main_schedule env plan_shots max_shots max_takes_per_shot =
     (if \<not> plan_exists env then Inl PlanNotFound
      else case plan_shots of
        None \<Rightarrow> Inl NoShots
      | Some shots \<Rightarrow>
          if shots = [] then Inl NoShots
          else let shots = (case max_shots of
                              None \<Rightarrow> shots
                            | Some k \<Rightarrow> take (nat (max 1 k)) shots)
               in if execute_generation env \<and> \<not> wan_root_given env then Inl WanRootRequired
                  else if wan_root_given env \<and> \<not> wan_root_exists env then Inl WanRootNotFound
                  else if wan_root_given env \<and> execute_generation env \<and> \<not> wgp_exists env
                  then Inl WgpNotFound
                  else Inr (map (\<lambda>shot. (shot, [1..takes_for_shot shot max_takes_per_shot])) shots))"

section \<open>Planning: \<open>music_plan.py\<close>\<close>

text \<open>
  The planner computes on IEEE doubles. A finite double is modelled as the real number
  it denotes (the model has no NaN and no infinity); comparisons, \<open>min\<close> and \<open>max\<close> are
  then exact, and the operations that round are parameters of the model: the four
  arithmetic operations, \<open>round(x, n)\<close>, and the value of the literal \<open>0.1\<close>, which no
  double equals. The properties proved of the planner therefore hold of whatever these
  operations compute. (The other float literals of the planner, such as \<open>60.0\<close>, are
  doubles.)
\<close>

record float_ops =
  fadd :: "real \<Rightarrow> real \<Rightarrow> real"
  fsub :: "real \<Rightarrow> real \<Rightarrow> real"
  fmul :: "real \<Rightarrow> real \<Rightarrow> real"
  fdiv :: "real \<Rightarrow> real \<Rightarrow> real"
  fround :: "real \<Rightarrow> nat \<Rightarrow> real"
  tenth :: real

text \<open>
  The analysis file as the planner reads it. A key read with a default
  (\<open>analysis.get("bpm", 120.0)\<close>, \<open>section.get("label", "section")\<close>) is an \<open>option\<close>,
  \<open>None\<close> for an absent key; \<open>an_sections\<close> is the empty list when the value is not a
  list.
\<close>

record track_section =
  sec_label :: "string option"
  sec_energy :: "string option"
  sec_start_sec :: "real option"
  sec_end_sec :: "real option"

record analysis =
  an_duration_seconds :: "real option"
  an_beats :: "real list"
  an_bpm :: "real option"
  an_sections :: "track_section list"

datatype style_preset = Cinematic | Performance | Abstract | Brand_promo

record plan_args =
  arg_analysis :: string
  arg_theme :: string
  arg_brand :: string
  arg_style_preset :: style_preset
  arg_resolution :: string
  arg_fps :: int
  arg_min_shot_seconds :: real
  arg_max_shot_seconds :: real
  arg_takes_hero :: int
  arg_takes_standard :: int
  arg_takes_filler :: int
  arg_seed :: int
  arg_output :: "string option"

text \<open>
  \<open>random.Random\<close> is the standard library's generator: the model takes it as a
  parameter, the three operations the planner uses on a generator state \<open>'g\<close>.
\<close>

record 'g prng =
  seeded :: "int \<Rightarrow> 'g"
  choice :: "'g \<Rightarrow> string list \<Rightarrow> string \<times> 'g"
  sample :: "'g \<Rightarrow> string list \<Rightarrow> nat \<Rightarrow> string list \<times> 'g"

record shot =
  shot_id :: string
  shot_start_sec :: real
  shot_end_sec :: real
  shot_duration_sec :: real
  shot_section :: string
  shot_energy :: string
  shot_priority :: string
  shot_visual_goal :: string
  shot_prompt :: string
  shot_negative_prompt :: string
  shot_quality_hint :: string
  shot_take_count :: int
  shot_transition_after :: string

text \<open>\<open>float(x or d)\<close> for a number read with \<open>dict.get\<close>.\<close>

definition float_or :: "real option \<Rightarrow> real \<Rightarrow> real" where
  "float_or value d = (case value of None \<Rightarrow> d | Some x \<Rightarrow> if x = 0 then d else x)"

text \<open>The inter-beat intervals and \<open>statistics.median\<close>, in the planner's arithmetic.\<close>

fun beat_gaps :: "float_ops \<Rightarrow> real list \<Rightarrow> real list" where
  "beat_gaps ops (a # b # rest) = fsub ops b a # beat_gaps ops (b # rest)"
| "beat_gaps ops _ = []"

definition float_median :: "float_ops \<Rightarrow> real list \<Rightarrow> real" where
  "float_median ops data =
     (let s = sort data; n = length s
      in if odd n then s ! (n div 2)
         else fdiv ops (fadd ops (s ! (n div 2 - 1)) (s ! (n div 2))) 2)"

definition beat_interval :: "float_ops \<Rightarrow> real list \<Rightarrow> real \<Rightarrow> real" where
  "beat_interval ops beats fallback_bpm =
     (let ivs = (if 2 \<le> length beats then filter (\<lambda>v. 0 < v) (beat_gaps ops beats) else [])
      in if ivs \<noteq> [] then float_median ops ivs
         else let bpm = max 40 (min 220 (if fallback_bpm = 0 then 120 else fallback_bpm))
              in fdiv ops 60 bpm)"

definition snap_forward :: "real \<Rightarrow> real list \<Rightarrow> real" where
  "snap_forward target beats =
     (if beats = [] then target
      else case find (\<lambda>beat. target \<le> beat) beats of
             Some beat \<Rightarrow> beat
           | None \<Rightarrow> last beats)"

definition find_section_at :: "float_ops \<Rightarrow> real \<Rightarrow> track_section list \<Rightarrow> track_section" where
  "find_section_at ops time_sec sections =
     (case find (\<lambda>s. float_or (sec_start_sec s) 0 \<le> time_sec \<and>
                      time_sec < float_or (sec_end_sec s) 0) sections of
        Some s \<Rightarrow> s
      | None \<Rightarrow>
          if sections \<noteq> [] then last sections
          else \<lparr>sec_label = Some ''section'', sec_energy = Some ''medium'',
                sec_start_sec = Some 0, sec_end_sec = Some (fadd ops time_sec 1)\<rparr>)"

definition shot_type :: "string \<Rightarrow> string \<Rightarrow> nat \<Rightarrow> string" where
  "shot_type section_label energy shot_index =
     (let label = lower section_label; normalized_energy = lower energy
      in if shot_index = 1 then ''hero''
         else if contains ''chorus'' label \<or> contains ''drop'' label then ''hero''
         else if normalized_energy = ''low'' then ''filler''
         else ''standard'')"

fun style_tokens :: "style_preset \<Rightarrow> string list" where
  "style_tokens Cinematic =
     [''cinematic composition'', ''natural skin tones'', ''high dynamic range lighting'',
      ''coherent facial anatomy'']"
| "style_tokens Performance =
     [''energetic performance framing'', ''stage-like confidence'', ''dynamic camera movement'',
      ''strong visual rhythm'']"
| "style_tokens Abstract =
     [''stylized visual poetry'', ''bold color contrast'', ''symbolic scene design'',
      ''surreal but coherent motion'']"
| "style_tokens Brand_promo =
     [''commercial-grade polish'', ''clean premium aesthetic'', ''product storytelling energy'',
      ''ad-ready lighting'']"

definition section_descriptor :: "string \<Rightarrow> string" where
  "section_descriptor section_label =
     (let label = lower section_label
      in if label = ''intro'' then ''establishing shot with atmosphere and anticipation''
         else if label = ''verse'' then ''narrative medium shot with subtle movement''
         else if label = ''pre-chorus'' then ''rising tension with forward camera drift''
         else if label = ''chorus'' then ''hero shot, strong subject clarity, expressive motion''
         else if label = ''bridge'' then ''contrast section with unexpected angle and mood shift''
         else if label = ''outro'' then ''closing shot with graceful deceleration''
         else ''stylized music video shot with clear subject and coherent action'')"

definition camera_moves :: "string list" where
  "camera_moves =
     [''slow dolly-in'', ''handheld parallax motion'', ''gentle crane rise'',
      ''tracking shot from side profile'', ''center-framed push-in'', ''over-shoulder reveal'']"

text \<open>\<open>_build_prompt\<close> returns the prompt; the generator state it leaves is returned with it.\<close>

definition build_prompt ::
  "'g prng \<Rightarrow> 'g \<Rightarrow> string \<Rightarrow> style_preset \<Rightarrow> string \<Rightarrow> string \<Rightarrow> string \<times> 'g" where
  "build_prompt gen rng theme preset section_label brand =
     (let tokens = style_tokens preset;
          descriptor = section_descriptor section_label;
          (camera, rng) = choice gen rng camera_moves;
          (styles, rng) = sample gen rng tokens (min 3 (length tokens));
          style = join '', '' styles;
          brand_clause =
            (if strip brand \<noteq> []
             then '', subtle visual motif inspired by '' @ strip brand @
                  '', no readable logos or text''
             else [])
      in (''music video scene, '' @ strip theme @ '', '' @ descriptor @ '', '' @ camera @
          '', '' @ style @ '', clear human subject, coherent anatomy, cinematic realism'' @
          brand_clause, rng))"

definition negative_prompt :: string where
  "negative_prompt =
     ''text, logo, watermark, unreadable typography, blurry, overexposed, underexposed, '' @
     ''gray blob, abstract texture mush, deformed anatomy, extra limbs, flicker, jitter''"

definition quality_hint :: "string \<Rightarrow> string" where
  "quality_hint shot_kind = ''quality''"

definition takes_for_kind :: "string \<Rightarrow> plan_args \<Rightarrow> int" where
  "takes_for_kind shot_kind args =
     (if shot_kind = ''hero'' then max 1 (arg_takes_hero args)
      else if shot_kind = ''standard'' then max 1 (arg_takes_standard args)
      else max 1 (arg_takes_filler args))"

text \<open>
  The timing of one shot, lines 220 to 234 of the loop body of \<open>_build_shots\<close>: from the
  cursor to the end of the shot that starts there.
\<close>

definition shot_end ::
  "float_ops \<Rightarrow> plan_args \<Rightarrow> real \<Rightarrow> real list \<Rightarrow> real \<Rightarrow> string \<Rightarrow> real \<Rightarrow> real" where
  "shot_end ops args duration_seconds beats beat_sec shot_kind cursor =
     (let beats_per_shot =
            (if shot_kind = ''hero'' then 4 else if shot_kind = ''standard'' then 6 else 8);
          raw_duration = fmul ops beats_per_shot beat_sec;
          shot_duration =
            max (arg_min_shot_seconds args) (min (arg_max_shot_seconds args) raw_duration);
          target_end = fadd ops cursor shot_duration;
          snapped_end = (if beats \<noteq> [] then snap_forward target_end beats else target_end);
          end_sec = min duration_seconds
                      (max (fadd ops cursor (arg_min_shot_seconds args)) snapped_end);
          end_sec =
            (if fsub ops end_sec cursor > arg_max_shot_seconds args
             then min duration_seconds (fadd ops cursor (arg_max_shot_seconds args))
             else end_sec);
          end_sec =
            (if end_sec \<le> cursor
             then min duration_seconds
                    (fadd ops cursor (max beat_sec (arg_min_shot_seconds args)))
             else end_sec)
      in end_sec)"

text \<open>
  The \<open>while\<close> loop of \<open>_build_shots\<close>; \<open>gen\<close> is the generator and \<open>rng\<close> its state. The
  loop need not end: when \<open>cursor + x\<close> rounds to \<open>cursor\<close> the cursor stays where it is.
  The result is \<open>None\<close> when the loop does not end.
\<close>

partial_function (option) shot_loop ::
  "float_ops \<Rightarrow> 'g prng \<Rightarrow> plan_args \<Rightarrow> real \<Rightarrow> real list \<Rightarrow> real \<Rightarrow> track_section list \<Rightarrow>
     real \<Rightarrow> nat \<Rightarrow> 'g \<Rightarrow> shot list \<Rightarrow> shot list option" where
  "shot_loop ops gen args duration_seconds beats beat_sec sections cursor shot_index rng shots =
     (if cursor < fsub ops duration_seconds (tenth ops) then
        let section = find_section_at ops cursor sections;
            section_label = (case sec_label section of None \<Rightarrow> ''section'' | Some l \<Rightarrow> l);
            energy = (case sec_energy section of None \<Rightarrow> ''medium'' | Some e \<Rightarrow> e);
            shot_kind = shot_type section_label energy shot_index;
            end_sec = shot_end ops args duration_seconds beats beat_sec shot_kind cursor;
            (prompt, rng) =
              build_prompt gen rng (arg_theme args) (arg_style_preset args) section_label
                (arg_brand args);
            shot = \<lparr>shot_id = ''shot_'' @ format_03d shot_index,
                    shot_start_sec = fround ops cursor 4,
                    shot_end_sec = fround ops end_sec 4,
                    shot_duration_sec = fround ops (fsub ops end_sec cursor) 4,
                    shot_section = section_label,
                    shot_energy = energy,
                    shot_priority = shot_kind,
                    shot_visual_goal = section_descriptor section_label,
                    shot_prompt = prompt,
                    shot_negative_prompt = negative_prompt,
                    shot_quality_hint = quality_hint shot_kind,
                    shot_take_count = takes_for_kind shot_kind args,
                    shot_transition_after = ''cut''\<rparr>
        in shot_loop ops gen args duration_seconds beats beat_sec sections end_sec
             (shot_index + 1) rng (shots @ [shot])
      else Some shots)"

declare shot_loop.simps [code]

text \<open>The post-pass of \<open>_build_shots\<close> that merges a short final shot into the one before.\<close>

definition merge_tail :: "float_ops \<Rightarrow> plan_args \<Rightarrow> shot list \<Rightarrow> shot list" where
  "merge_tail ops args shots =
     (if 2 \<le> length shots then
        let tail = last shots
        in if shot_duration_sec tail < arg_min_shot_seconds args then
             let previous = shots ! (length shots - 2);
                 previous = previous\<lparr>shot_end_sec := shot_end_sec tail\<rparr>;
                 previous = previous\<lparr>shot_duration_sec :=
                              fround ops (fsub ops (shot_end_sec previous)
                                            (shot_start_sec previous)) 4\<rparr>
             in butlast (shots[length shots - 2 := previous])
           else shots
      else shots)"

datatype plan_error = AnalysisNotFound | MissingDuration

text \<open>\<open>_build_shots\<close>: \<open>None\<close> when the loop does not end, the error when it raises.\<close>

definition build_shots ::
  "float_ops \<Rightarrow> 'g prng \<Rightarrow> analysis \<Rightarrow> plan_args \<Rightarrow> (plan_error + shot list) option" where
  "build_shots ops gen an args =
     (let duration_seconds = float_or (an_duration_seconds an) 0
      in if duration_seconds \<le> 0 then Some (Inl MissingDuration)
         else let beats = filter (\<lambda>v. 0 \<le> v) (an_beats an);
                  bpm = float_or (an_bpm an) 120;
                  sections = an_sections an;
                  beat_sec = beat_interval ops beats bpm;
                  rng = seeded gen (arg_seed args)
              in case shot_loop ops gen args duration_seconds beats beat_sec sections 0 1 rng []
                 of None \<Rightarrow> None
                  | Some shots \<Rightarrow> Some (Inr (merge_tail ops args shots)))"

text \<open>
  \<open>main\<close>: what a run reads from the machine besides the analysis file is the working
  directory and the clock (for the default output path), and the file system.
\<close>

record plan_env =
  env_cwd :: string
  env_utc_stamp :: string
  env_resolve :: "string \<Rightarrow> string"
  env_exists :: "string \<Rightarrow> bool"

definition resolve_output_path :: "plan_env \<Rightarrow> string option \<Rightarrow> string" where
  "resolve_output_path env path_arg =
     (case path_arg of
        Some p \<Rightarrow>
          if p \<noteq> [] then env_resolve env p
          else env_resolve env
                 (env_cwd env @ ''/wan2gp_music_jobs/plans/music-plan-'' @ env_utc_stamp env @
                  ''.json'')
      | None \<Rightarrow>
          env_resolve env
            (env_cwd env @ ''/wan2gp_music_jobs/plans/music-plan-'' @ env_utc_stamp env @
             ''.json''))"

record plan_report =
  rep_status :: string
  rep_analysis_file :: string
  rep_plan_file :: string
  rep_theme :: string
  rep_brand :: string
  rep_style_preset :: style_preset
  rep_resolution :: string
  rep_fps :: int
  rep_duration_seconds :: real
  rep_bpm :: real
  rep_shots :: "shot list"
  rep_total_shots :: nat
  rep_hero_shots :: nat
  rep_standard_shots :: nat
  rep_filler_shots :: nat

definition main_report ::
  "plan_env \<Rightarrow> float_ops \<Rightarrow> 'g prng \<Rightarrow> analysis \<Rightarrow> plan_args \<Rightarrow>
     (plan_error + plan_report) option" where
  "main_report env ops gen an args =
     (let analysis_path = env_resolve env (arg_analysis args)
      in if \<not> env_exists env analysis_path then Some (Inl AnalysisNotFound)
         else case build_shots ops gen an args of
                None \<Rightarrow> None
              | Some (Inl e) \<Rightarrow> Some (Inl e)
              | Some (Inr shots) \<Rightarrow>
                  Some (Inr \<lparr>rep_status = ''success'',
                       rep_analysis_file = analysis_path,
                       rep_plan_file = resolve_output_path env (arg_output args),
                       rep_theme = arg_theme args,
                       rep_brand = arg_brand args,
                       rep_style_preset = arg_style_preset args,
                       rep_resolution = arg_resolution args,
                       rep_fps = arg_fps args,
                       rep_duration_seconds = float_or (an_duration_seconds an) 0,
                       rep_bpm = float_or (an_bpm an) 120,
                       rep_shots = shots,
                       rep_total_shots = length shots,
                       rep_hero_shots = length (filter (\<lambda>s. shot_priority s = ''hero'') shots),
                       rep_standard_shots =
                         length (filter (\<lambda>s. shot_priority s = ''standard'') shots),
                       rep_filler_shots =
                         length (filter (\<lambda>s. shot_priority s = ''filler'') shots)\<rparr>))"

text \<open>
  For concrete runs: exact arithmetic in place of the doubles', a small generator, the
  command line's default arguments, an analysis with no beats and no sections, and a
  machine on which every file exists.
\<close>

definition exact_ops :: float_ops where
  "exact_ops = \<lparr>fadd = (+), fsub = (-), fmul = (*), fdiv = (/), fround = py_round,
                tenth = 1 / 10\<rparr>"

definition gen0 :: "int prng" where
  "gen0 = \<lparr>seeded = (\<lambda>s. s), choice = (\<lambda>g xs. (hd xs, g + 1)),
           sample = (\<lambda>g xs k. (take k xs, g + 1))\<rparr>"

definition args0 :: plan_args where
  "args0 = \<lparr>arg_analysis = ''a.json'', arg_theme = ''neon'', arg_brand = '''',
            arg_style_preset = Cinematic, arg_resolution = ''832x480'', arg_fps = 16,
            arg_min_shot_seconds = 2, arg_max_shot_seconds = 4,
            arg_takes_hero = 3, arg_takes_standard = 2, arg_takes_filler = 1,
            arg_seed = 42, arg_output = None\<rparr>"

definition bare_analysis :: "real \<Rightarrow> real option \<Rightarrow> analysis" where
  "bare_analysis duration_seconds bpm =
     \<lparr>an_duration_seconds = Some duration_seconds, an_beats = [], an_bpm = bpm,
      an_sections = []\<rparr>"

definition env_at :: "string \<Rightarrow> string \<Rightarrow> plan_env" where
  "env_at cwd stamp =
     \<lparr>env_cwd = cwd, env_utc_stamp = stamp, env_resolve = (\<lambda>p. p), env_exists = (\<lambda>p. True)\<rparr>"

section \<open>Vocabulary of the properties\<close>

text \<open>What the manifest offers the clip selection: a shot with a usable take, or an
  existing file in the raw \<open>"clips"\<close> list.\<close>

definition has_usable_take :: "filesystem \<Rightarrow> manifest \<Rightarrow> bool" where
  "has_usable_take fs m \<longleftrightarrow>
     (\<exists>shot\<in>set (case manifest_shots m of None \<Rightarrow> [] | Some shots \<Rightarrow> shots).
        case shot_takes shot of None \<Rightarrow> False | Some takes \<Rightarrow> \<exists>t\<in>set takes. usable fs t)"

definition has_raw_clip :: "filesystem \<Rightarrow> manifest \<Rightarrow> bool" where
  "has_raw_clip fs m \<longleftrightarrow>
     (\<exists>v\<in>set (case manifest_clips m of None \<Rightarrow> [] | Some raw \<Rightarrow> raw).
        path_exists fs (resolve fs v))"

text \<open>One iteration of the loop, named: the kind of the shot it plans and the cursor it
  leaves.\<close>

definition kind_at :: "float_ops \<Rightarrow> track_section list \<Rightarrow> real \<Rightarrow> nat \<Rightarrow> string" where
  "kind_at ops sections cursor shot_index =
     (let section = find_section_at ops cursor sections
      in shot_type (case sec_label section of None \<Rightarrow> ''section'' | Some l \<Rightarrow> l)
           (case sec_energy section of None \<Rightarrow> ''medium'' | Some e \<Rightarrow> e) shot_index)"

definition next_cursor ::
  "float_ops \<Rightarrow> plan_args \<Rightarrow> real \<Rightarrow> real list \<Rightarrow> real \<Rightarrow> track_section list \<Rightarrow> real \<Rightarrow> nat
     \<Rightarrow> real" where
  "next_cursor ops args duration_seconds beats beat_sec sections cursor shot_index =
     shot_end ops args duration_seconds beats beat_sec (kind_at ops sections cursor shot_index)
       cursor"

text \<open>The shot the iteration appends, given the prompt the generator produced.\<close>

definition label_at :: "float_ops \<Rightarrow> track_section list \<Rightarrow> real \<Rightarrow> string" where
  "label_at ops sections cursor =
     (case sec_label (find_section_at ops cursor sections) of
        None \<Rightarrow> ''section''
      | Some l \<Rightarrow> l)"

definition shot_at ::
  "float_ops \<Rightarrow> plan_args \<Rightarrow> real \<Rightarrow> real list \<Rightarrow> real \<Rightarrow> track_section list \<Rightarrow> real \<Rightarrow> nat
     \<Rightarrow> string \<Rightarrow> shot" where
  "shot_at ops args duration_seconds beats beat_sec sections cursor shot_index prompt =
     \<lparr>shot_id = ''shot_'' @ format_03d shot_index,
      shot_start_sec = fround ops cursor 4,
      shot_end_sec =
        fround ops (next_cursor ops args duration_seconds beats beat_sec sections cursor
                      shot_index) 4,
      shot_duration_sec =
        fround ops (fsub ops (next_cursor ops args duration_seconds beats beat_sec sections
                                cursor shot_index) cursor) 4,
      shot_section = label_at ops sections cursor,
      shot_energy = (case sec_energy (find_section_at ops cursor sections) of
                       None \<Rightarrow> ''medium'' | Some e \<Rightarrow> e),
      shot_priority = kind_at ops sections cursor shot_index,
      shot_visual_goal = section_descriptor (label_at ops sections cursor),
      shot_prompt = prompt,
      shot_negative_prompt = negative_prompt,
      shot_quality_hint = quality_hint (kind_at ops sections cursor shot_index),
      shot_take_count = takes_for_kind (kind_at ops sections cursor shot_index) args,
      shot_transition_after = ''cut''\<rparr>"

text \<open>The shot list when the loop ends, before the tail is merged.\<close>

definition planned_shots ::
  "float_ops \<Rightarrow> 'g prng \<Rightarrow> analysis \<Rightarrow> plan_args \<Rightarrow> shot list option" where
  "planned_shots ops gen an args =
     shot_loop ops gen args (float_or (an_duration_seconds an) 0)
       (filter (\<lambda>v. 0 \<le> v) (an_beats an))
       (beat_interval ops (filter (\<lambda>v. 0 \<le> v) (an_beats an)) (float_or (an_bpm an) 120))
       (an_sections an) 0 1 (seeded gen (arg_seed args)) []"

text \<open>Adjacent shots meet: each shot ends where the next one starts.\<close>

definition contiguous :: "shot list \<Rightarrow> bool" where
  "contiguous shots \<longleftrightarrow>
     (\<forall>i. Suc i < length shots \<longrightarrow> shot_end_sec (shots ! i) = shot_start_sec (shots ! Suc i))"

text \<open>What the loop keeps true of the cursor and the shots built so far.\<close>

definition chain_to :: "float_ops \<Rightarrow> real \<Rightarrow> real \<Rightarrow> shot list \<Rightarrow> bool" where
  "chain_to ops duration_seconds cursor shots \<longleftrightarrow>
     cursor \<le> duration_seconds \<and>
     (shots = [] \<longrightarrow> cursor = 0) \<and>
     (shots \<noteq> [] \<longrightarrow>
        shot_start_sec (hd shots) = fround ops 0 4 \<and>
        shot_end_sec (last shots) = fround ops cursor 4) \<and>
     contiguous shots"

text \<open>
  Two argument records with the same creative parameters: everything but the paths of
  the analysis file and of the output file.
\<close>

definition same_creative_parameters :: "plan_args \<Rightarrow> plan_args \<Rightarrow> bool" where
  "same_creative_parameters a b \<longleftrightarrow>
     arg_theme a = arg_theme b \<and> arg_brand a = arg_brand b \<and>
     arg_style_preset a = arg_style_preset b \<and> arg_resolution a = arg_resolution b \<and>
     arg_fps a = arg_fps b \<and>
     arg_min_shot_seconds a = arg_min_shot_seconds b \<and>
     arg_max_shot_seconds a = arg_max_shot_seconds b \<and>
     arg_takes_hero a = arg_takes_hero b \<and> arg_takes_standard a = arg_takes_standard b \<and>
     arg_takes_filler a = arg_takes_filler b \<and> arg_seed a = arg_seed b"

text \<open>
  \<open>(cursor + x) - cursor\<close> as the planner's arithmetic computes it: the length of a shot
  that ends \<open>x\<close> after the cursor. In exact arithmetic it is \<open>x\<close>.
\<close>

definition step_length :: "float_ops \<Rightarrow> real \<Rightarrow> real \<Rightarrow> real" where
  "step_length ops cursor x = fsub ops (fadd ops cursor x) cursor"

text \<open>
  What the bounds on durations need of the arithmetic: a larger addend gives no smaller
  sum, a larger minuend no smaller difference, a larger number no smaller rounding, and
  subtracting the literal \<open>0.1\<close> does not increase. Correctly rounded operations have
  these properties.
\<close>

definition monotone_ops :: "float_ops \<Rightarrow> bool" where
  "monotone_ops ops \<longleftrightarrow>
     (\<forall>c x y. x \<le> y \<longrightarrow> fadd ops c x \<le> fadd ops c y) \<and>
     (\<forall>x y c. x \<le> y \<longrightarrow> fsub ops x c \<le> fsub ops y c) \<and>
     (\<forall>x y n. x \<le> y \<longrightarrow> fround ops x n \<le> fround ops y n) \<and>
     (\<forall>x. fsub ops x (tenth ops) \<le> x)"

text \<open>
  The arithmetic lets the cursor advance: from every cursor inside the track, adding the
  minimum or the maximum shot length moves it forward by at least \<open>step\<close>. (In doubles
  \<open>cursor + x\<close> is \<open>cursor\<close> when \<open>x\<close> is small enough.)
\<close>

definition advances :: "float_ops \<Rightarrow> plan_args \<Rightarrow> real \<Rightarrow> real \<Rightarrow> bool" where
  "advances ops args duration_seconds step \<longleftrightarrow>
     0 < step \<and>
     (\<forall>c. 0 \<le> c \<and> c < duration_seconds \<longrightarrow>
        c + step \<le> fadd ops c (arg_min_shot_seconds args) \<and>
        c + step \<le> fadd ops c (arg_max_shot_seconds args))"

text \<open>The beat interval of a run.\<close>

definition beat_sec_of :: "float_ops \<Rightarrow> analysis \<Rightarrow> real" where
  "beat_sec_of ops an =
     beat_interval ops (filter (\<lambda>v. 0 \<le> v) (an_beats an)) (float_or (an_bpm an) 120)"

text \<open>
  A shot planned at a cursor is within the maximum: it starts at the rounded cursor, and
  its duration is at most the rounding of the largest of the maximum and the lengths of
  the two steps by which the loop body replaces an end it rejects.
\<close>

definition within_max :: "float_ops \<Rightarrow> plan_args \<Rightarrow> real \<Rightarrow> real \<Rightarrow> shot \<Rightarrow> bool" where
  "within_max ops args beat_sec cursor shot \<longleftrightarrow>
     shot_start_sec shot = fround ops cursor 4 \<and>
     shot_duration_sec shot \<le>
       fround ops
         (max (arg_max_shot_seconds args)
            (max (step_length ops cursor (arg_max_shot_seconds args))
               (step_length ops cursor (max beat_sec (arg_min_shot_seconds args))))) 4"

text \<open>It is at least the minimum: no shorter than the rounded step of the minimum.\<close>

definition at_least_min :: "float_ops \<Rightarrow> plan_args \<Rightarrow> real \<Rightarrow> shot \<Rightarrow> bool" where
  "at_least_min ops args cursor shot \<longleftrightarrow>
     fround ops (step_length ops cursor (arg_min_shot_seconds args)) 4
       \<le> shot_duration_sec shot"

text \<open>The post-pass merges the last shot of the loop's list into the one before.\<close>

definition tail_merged :: "plan_args \<Rightarrow> shot list \<Rightarrow> bool" where
  "tail_merged args shots \<longleftrightarrow>
     2 \<le> length shots \<and> shot_duration_sec (last shots) < arg_min_shot_seconds args"

section \<open>Facts about best-take selection\<close>

lemma collect_candidates_filter:
  "collect_candidates fs takes = map (\<lambda>t. (take_score t, t)) (filter (usable fs) takes)"
  by (induction takes) (auto simp: usable_def split: option.splits)

lemma hd_insort_key:
  "hd (insort_key f x ys) = (if ys = [] \<or> f x \<le> f (hd ys) then x else hd ys)"
  by (cases ys) auto

lemma sort_key_nonempty: "xs \<noteq> [] \<Longrightarrow> sort_key f xs \<noteq> []"
  by (cases xs) (auto simp: insort_is_Cons)

lemma sort_key_hd_split:
  "xs \<noteq> [] \<Longrightarrow>
     \<exists>pre post. xs = pre @ hd (sort_key f xs) # post \<and>
       (\<forall>u\<in>set pre. f (hd (sort_key f xs)) < f u) \<and>
       (\<forall>u\<in>set post. f (hd (sort_key f xs)) \<le> f u)"
proof (induction xs)
  case Nil
  then show ?case by simp
next
  case (Cons x xs)
  show ?case
  proof (cases "xs = []")
    case True
    then have "x # xs = [] @ hd (sort_key f (x # xs)) # []" by simp
    then show ?thesis by (metis empty_iff empty_set)
  next
    case False
    let ?h = "hd (sort_key f xs)"
    from Cons.IH [OF False] obtain pre post where
      split: "xs = pre @ ?h # post" and
      pre: "\<forall>u\<in>set pre. f ?h < f u" and
      post: "\<forall>u\<in>set post. f ?h \<le> f u"
      by blast
    have ne: "sort_key f xs \<noteq> []" using False by (rule sort_key_nonempty)
    show ?thesis
    proof (cases "f x \<le> f ?h")
      case True
      then have hd_x: "hd (sort_key f (x # xs)) = x"
        by (simp add: hd_insort_key)
      have "\<forall>u\<in>set xs. f x \<le> f u"
      proof
        fix u assume "u \<in> set xs"
        then have "u \<in> set pre \<or> u = ?h \<or> u \<in> set post"
          using split by (metis Un_iff set_ConsD set_append)
        then show "f x \<le> f u" using True pre post by force
      qed
      then have "x # xs = [] @ x # xs \<and> (\<forall>u\<in>set []. f x < f u) \<and> (\<forall>u\<in>set xs. f x \<le> f u)"
        by simp
      then show ?thesis unfolding hd_x by blast
    next
      case False
      then have hd_h: "hd (sort_key f (x # xs)) = ?h"
        using ne by (simp add: hd_insort_key)
      have "x # xs = (x # pre) @ ?h # post" using split by simp
      moreover have "\<forall>u\<in>set (x # pre). f ?h < f u" using False pre by auto
      ultimately show ?thesis unfolding hd_h using post by blast
    qed
  qed
qed

lemma filter_split:
  "filter P xs = ys @ b # zs \<Longrightarrow>
     \<exists>pre post. xs = pre @ b # post \<and> filter P pre = ys \<and> filter P post = zs \<and> P b"
proof (induction xs arbitrary: ys)
  case Nil
  then show ?case by simp
next
  case (Cons x xs)
  show ?case
  proof (cases "P x")
    case False
    with Cons.prems have "filter P xs = ys @ b # zs" by simp
    from Cons.IH [OF this] obtain pre post where
      "xs = pre @ b # post" "filter P pre = ys" "filter P post = zs" "P b" by blast
    then have "x # xs = (x # pre) @ b # post \<and> filter P (x # pre) = ys \<and> filter P post = zs \<and> P b"
      using False by simp
    then show ?thesis by blast
  next
    case True
    show ?thesis
    proof (cases ys)
      case Nil
      with Cons.prems True have "x = b" "filter P xs = zs" by simp_all
      then have "x # xs = [] @ b # xs \<and> filter P [] = ys \<and> filter P xs = zs \<and> P b"
        using Nil True by simp
      then show ?thesis by blast
    next
      case (Cons y ys')
      with Cons.prems True have "y = x" "filter P xs = ys' @ b # zs" by simp_all
      from Cons.IH [OF this(2)] obtain pre post where
        "xs = pre @ b # post" "filter P pre = ys'" "filter P post = zs" "P b" by blast
      then have "x # xs = (x # pre) @ b # post \<and> filter P (x # pre) = ys \<and> filter P post = zs \<and> P b"
        using True Cons \<open>y = x\<close> by simp
      then show ?thesis by blast
    qed
  qed
qed

lemma best_take_None_iff:
  "best_take fs takes = None \<longleftrightarrow> (\<forall>t\<in>set takes. \<not> usable fs t)"
proof -
  have "best_take fs takes = None \<longleftrightarrow> collect_candidates fs takes = []"
    using sort_key_nonempty [of "collect_candidates fs takes" "\<lambda>item. - fst item"]
    by (auto simp: best_take_def split: list.splits)
  also have "\<dots> \<longleftrightarrow> (\<forall>t\<in>set takes. \<not> usable fs t)"
    by (simp add: collect_candidates_filter filter_empty_conv)
  finally show ?thesis .
qed

lemma best_take_Some_split:
  assumes "best_take fs takes = Some best"
  shows "usable fs best \<and>
         (\<exists>pre post. takes = pre @ best # post \<and>
            (\<forall>u\<in>set pre. usable fs u \<longrightarrow> take_score u < take_score best) \<and>
            (\<forall>u\<in>set post. usable fs u \<longrightarrow> take_score u \<le> take_score best))"
proof -
  let ?g = "\<lambda>t. (take_score t, t)"
  let ?f = "\<lambda>item::real \<times> take. - fst item"
  let ?cs = "collect_candidates fs takes"
  have cs: "?cs = map ?g (filter (usable fs) takes)"
    by (rule collect_candidates_filter)
  from assms have sorted_ne: "sort_key ?f ?cs \<noteq> []" and best: "snd (hd (sort_key ?f ?cs)) = best"
    by (auto simp: best_take_def split: list.splits)
  from sorted_ne have ne: "?cs \<noteq> []" by auto
  from sort_key_hd_split [OF ne, of ?f] obtain pre' post' where
    split: "?cs = pre' @ hd (sort_key ?f ?cs) # post'" and
    pre': "\<forall>u\<in>set pre'. ?f (hd (sort_key ?f ?cs)) < ?f u" and
    post': "\<forall>u\<in>set post'. ?f (hd (sort_key ?f ?cs)) \<le> ?f u"
    by blast
  have "hd (sort_key ?f ?cs) \<in> set ?cs"
    using split by (metis in_set_conv_decomp)
  then have h: "hd (sort_key ?f ?cs) = ?g best"
    using best by (auto simp: cs)
  from split have "map ?g (filter (usable fs) takes) = pre' @ ?g best # post'"
    by (simp only: h cs [symmetric])
  then obtain ys zs where
    yz: "filter (usable fs) takes = ys @ zs" "pre' = map ?g ys" "?g best # post' = map ?g zs"
    by (auto simp: map_eq_append_conv)
  from yz(3) obtain zs' where zs: "zs = best # zs'" "post' = map ?g zs'"
    by (cases zs) auto
  from yz(1) zs(1) have "filter (usable fs) takes = ys @ best # zs'" by simp
  from filter_split [OF this] obtain pre post where
    dec: "takes = pre @ best # post" "filter (usable fs) pre = ys"
      "filter (usable fs) post = zs'" "usable fs best"
    by blast
  have "\<forall>u\<in>set pre. usable fs u \<longrightarrow> take_score u < take_score best"
  proof (intro ballI impI)
    fix u assume "u \<in> set pre" "usable fs u"
    then have "?g u \<in> set pre'" using dec(2) yz(2) by auto
    with pre' h show "take_score u < take_score best" by auto
  qed
  moreover have "\<forall>u\<in>set post. usable fs u \<longrightarrow> take_score u \<le> take_score best"
  proof (intro ballI impI)
    fix u assume "u \<in> set post" "usable fs u"
    then have "?g u \<in> set post'" using dec(3) zs(2) by auto
    with post' h show "take_score u \<le> take_score best" by auto
  qed
  ultimately show ?thesis using dec(1,4) by blast
qed

lemma best_take_in_set:
  "best_take fs takes = Some best \<Longrightarrow> best \<in> set takes \<and> usable fs best"
  using best_take_Some_split [of fs takes best] by auto

lemma best_take_maximal:
  "best_take fs takes = Some best \<Longrightarrow> u \<in> set takes \<Longrightarrow> usable fs u \<Longrightarrow>
     take_score u \<le> take_score best"
  using best_take_Some_split [of fs takes best] by (auto simp: less_imp_le)

lemma shot_clips_skip:
  "best_take fs takes = None \<Longrightarrow>
     shot_clips fs (\<lparr>shot_takes = Some takes\<rparr> # shots) = shot_clips fs shots"
  by simp

text \<open>
  Claim C6. Among the takes of a shot that are usable (status success, read
  case-insensitively as the script does, and an existing video file), \<open>_best_take\<close>
  returns one of maximal quality score, and of several with the maximal score the one
  that comes first in the list: every usable take before it scores strictly less, every
  usable take after it scores at most as much. It returns nothing exactly when no take
  is usable, and then the shot adds no clip to the clip list.
\<close>

theorem best_take_first_maximum:
  "(best_take fs takes = None \<longleftrightarrow> (\<forall>t\<in>set takes. \<not> usable fs t)) \<and>
   (\<forall>best. best_take fs takes = Some best \<longrightarrow>
      usable fs best \<and>
      (\<exists>pre post. takes = pre @ best # post \<and>
         (\<forall>u\<in>set pre. usable fs u \<longrightarrow> take_score u < take_score best) \<and>
         (\<forall>u\<in>set post. usable fs u \<longrightarrow> take_score u \<le> take_score best))) \<and>
   ((\<forall>t\<in>set takes. \<not> usable fs t) \<longrightarrow>
      shot_clips fs (\<lparr>shot_takes = Some takes\<rparr> # shots) = shot_clips fs shots)"
proof (intro conjI allI impI)
  show "best_take fs takes = None \<longleftrightarrow> (\<forall>t\<in>set takes. \<not> usable fs t)"
    by (rule best_take_None_iff)
next
  fix best assume "best_take fs takes = Some best"
  from best_take_Some_split [OF this]
  show "usable fs best"
    and "\<exists>pre post. takes = pre @ best # post \<and>
         (\<forall>u\<in>set pre. usable fs u \<longrightarrow> take_score u < take_score best) \<and>
         (\<forall>u\<in>set post. usable fs u \<longrightarrow> take_score u \<le> take_score best)"
    by blast+
next
  assume "\<forall>t\<in>set takes. \<not> usable fs t"
  then have "best_take fs takes = None" by (simp add: best_take_None_iff)
  then show "shot_clips fs (\<lparr>shot_takes = Some takes\<rparr> # shots) = shot_clips fs shots"
    by (rule shot_clips_skip)
qed

theorem best_take_first_maximum_witness:
  "best_take \<lparr>resolve = (\<lambda>p. p), path_exists = (\<lambda>p. True)\<rparr>
     [\<lparr>take_status = Some ''success'', take_video_file = Some ''a.mp4'', take_quality_score = Some 0.35\<rparr>,
      \<lparr>take_status = Some ''success'', take_video_file = Some ''b.mp4'', take_quality_score = Some 0.8\<rparr>,
      \<lparr>take_status = Some ''success'', take_video_file = Some ''c.mp4'', take_quality_score = Some 0.6\<rparr>]
   = Some \<lparr>take_status = Some ''success'', take_video_file = Some ''b.mp4'', take_quality_score = Some 0.8\<rparr>
   \<and> usable \<lparr>resolve = (\<lambda>p. p), path_exists = (\<lambda>p. True)\<rparr>
       \<lparr>take_status = Some ''success'', take_video_file = Some ''b.mp4'', take_quality_score = Some 0.8\<rparr>
   \<and> \<not> usable \<lparr>resolve = (\<lambda>p. p), path_exists = (\<lambda>p. True)\<rparr>
       \<lparr>take_status = Some ''error'', take_video_file = None, take_quality_score = None\<rparr>
   \<and> shot_clips \<lparr>resolve = (\<lambda>p. p), path_exists = (\<lambda>p. True)\<rparr>
       [\<lparr>shot_takes = Some [\<lparr>take_status = Some ''error'', take_video_file = None, take_quality_score = None\<rparr>]\<rparr>] = []"
proof -
  let ?fs = "\<lparr>resolve = (\<lambda>p. p), path_exists = (\<lambda>p::string. True)\<rparr>"
  let ?b = "\<lparr>take_status = Some ''success'', take_video_file = Some ''b.mp4'', take_quality_score = Some (0.8::real)\<rparr>"
  let ?takes = "[\<lparr>take_status = Some ''success'', take_video_file = Some ''a.mp4'', take_quality_score = Some (0.35::real)\<rparr>,
      ?b,
      \<lparr>take_status = Some ''success'', take_video_file = Some ''c.mp4'', take_quality_score = Some 0.6\<rparr>]"
  let ?e = "\<lparr>take_status = Some ''error'', take_video_file = None, take_quality_score = None :: real option\<rparr>"
  have sel: "best_take ?fs ?takes = Some ?b"
    by (simp add: best_take_def status_text_def lower_def lower_char_def take_score_def)
  have "usable ?fs ?b"
    using best_take_first_maximum [of ?fs ?takes "[]"] sel by blast
  moreover have unus: "\<forall>t\<in>set [?e]. \<not> usable ?fs t"
    by (simp add: usable_def)
  moreover have "shot_clips ?fs [\<lparr>shot_takes = Some [?e]\<rparr>] = []"
    using best_take_first_maximum [of ?fs "[?e]" "[]"] unus by simp
  ultimately show ?thesis using sel by simp
qed

text \<open>
  Claim C10. A usable take whose \<open>quality_score\<close> is absent or null is scored 0: it is
  still a candidate, it is the selected take when it is the only usable take of its shot,
  and it is not the selected take when some usable take has a positive score.
\<close>

theorem null_score_take_selection:
  assumes "usable fs t" and "take_quality_score t = None" and "t \<in> set takes"
  shows "take_score t = 0 \<and>
         (0, t) \<in> set (collect_candidates fs takes) \<and>
         ((\<forall>u\<in>set takes. usable fs u \<longrightarrow> u = t) \<longrightarrow> best_take fs takes = Some t) \<and>
         ((\<exists>u\<in>set takes. usable fs u \<and> 0 < take_score u) \<longrightarrow> best_take fs takes \<noteq> Some t)"
proof (intro conjI impI)
  show score: "take_score t = 0"
    using assms(2) by (simp add: take_score_def)
  show "(0, t) \<in> set (collect_candidates fs takes)"
    using assms(1,3) score by (force simp: collect_candidates_filter)
  have "best_take fs takes \<noteq> None"
    using assms(1,3) by (auto simp: best_take_None_iff)
  then obtain best where best: "best_take fs takes = Some best" by blast
  {
    assume only: "\<forall>u\<in>set takes. usable fs u \<longrightarrow> u = t"
    from best_take_in_set [OF best] only have "best = t" by blast
    with best show "best_take fs takes = Some t" by simp
  }
  {
    assume "\<exists>u\<in>set takes. usable fs u \<and> 0 < take_score u"
    then obtain u where u: "u \<in> set takes" "usable fs u" "0 < take_score u" by blast
    from best_take_maximal [OF best u(1,2)] u(3) have "0 < take_score best" by simp
    with score have "best \<noteq> t" by auto
    with best show "best_take fs takes \<noteq> Some t" by simp
  }
qed

theorem null_score_take_selection_witness:
  "take_score \<lparr>take_status = Some ''success'', take_video_file = Some ''a.mp4'', take_quality_score = None\<rparr> = 0
   \<and> best_take \<lparr>resolve = (\<lambda>p. p), path_exists = (\<lambda>p. True)\<rparr>
       [\<lparr>take_status = Some ''error'', take_video_file = None, take_quality_score = None\<rparr>,
        \<lparr>take_status = Some ''success'', take_video_file = Some ''a.mp4'', take_quality_score = None\<rparr>]
      = Some \<lparr>take_status = Some ''success'', take_video_file = Some ''a.mp4'', take_quality_score = None\<rparr>
   \<and> best_take \<lparr>resolve = (\<lambda>p. p), path_exists = (\<lambda>p. True)\<rparr>
       [\<lparr>take_status = Some ''success'', take_video_file = Some ''a.mp4'', take_quality_score = None\<rparr>,
        \<lparr>take_status = Some ''success'', take_video_file = Some ''b.mp4'', take_quality_score = Some 0.15\<rparr>]
      \<noteq> Some \<lparr>take_status = Some ''success'', take_video_file = Some ''a.mp4'', take_quality_score = None\<rparr>"
proof -
  let ?fs = "\<lparr>resolve = (\<lambda>p. p), path_exists = (\<lambda>p::string. True)\<rparr>"
  let ?t = "\<lparr>take_status = Some ''success'', take_video_file = Some ''a.mp4'', take_quality_score = None :: real option\<rparr>"
  let ?e = "\<lparr>take_status = Some ''error'', take_video_file = None, take_quality_score = None :: real option\<rparr>"
  let ?p = "\<lparr>take_status = Some ''success'', take_video_file = Some ''b.mp4'', take_quality_score = Some (0.15::real)\<rparr>"
  have ut: "usable ?fs ?t" and ue: "\<not> usable ?fs ?e" and up: "usable ?fs ?p"
    by (simp_all add: usable_def status_text_def lower_def lower_char_def)
  have sp: "0 < take_score ?p" by (simp add: take_score_def)
  have "take_score ?t = 0 \<and> best_take ?fs [?e, ?t] = Some ?t"
    using null_score_take_selection [of ?fs ?t "[?e, ?t]"] ut ue by simp
  moreover have "best_take ?fs [?t, ?p] \<noteq> Some ?t"
    using null_score_take_selection [of ?fs ?t "[?t, ?p]"] ut up sp by simp
  ultimately show ?thesis by simp
qed

section \<open>Facts about the clip check and the generation schedule\<close>

lemma shot_clips_empty_iff:
  "shot_clips fs shots = [] \<longleftrightarrow>
     \<not> (\<exists>shot\<in>set shots.
          case shot_takes shot of None \<Rightarrow> False | Some takes \<Rightarrow> \<exists>t\<in>set takes. usable fs t)"
proof (induction shots)
  case Nil
  show ?case by simp
next
  case (Cons shot shots)
  show ?case
  proof (cases "shot_takes shot")
    case None
    with Cons.IH show ?thesis by simp
  next
    case (Some takes)
    show ?thesis
    proof (cases "best_take fs takes")
      case None
      then have "\<forall>t\<in>set takes. \<not> usable fs t" by (simp add: best_take_None_iff)
      with None Some Cons.IH show ?thesis by simp
    next
      case (Some best)
      then have "\<exists>t\<in>set takes. usable fs t" using best_take_in_set by blast
      with Some \<open>shot_takes shot = Some takes\<close> show ?thesis by simp
    qed
  qed
qed

lemma raw_clips_empty_iff:
  "raw_clips fs vs = [] \<longleftrightarrow> \<not> (\<exists>v\<in>set vs. path_exists fs (resolve fs v))"
  by (induction vs) auto

lemma take_max_one_empty_iff: "take (nat (max 1 k)) xs = [] \<longleftrightarrow> xs = []"
  by (cases xs) (auto simp: take_Cons' max_def)

lemma select_clip_paths_empty_iff:
  "select_clip_paths fs m max_clips = [] \<longleftrightarrow> \<not> has_usable_take fs m \<and> \<not> has_raw_clip fs m"
proof -
  have shots: "(case manifest_shots m of None \<Rightarrow> [] | Some shots \<Rightarrow> shot_clips fs shots) = []
                 \<longleftrightarrow> \<not> has_usable_take fs m"
    by (cases "manifest_shots m") (simp_all add: has_usable_take_def shot_clips_empty_iff)
  have raw: "(case manifest_clips m of None \<Rightarrow> [] | Some raw \<Rightarrow> raw_clips fs raw) = []
                 \<longleftrightarrow> \<not> has_raw_clip fs m"
    by (cases "manifest_clips m") (simp_all add: has_raw_clip_def raw_clips_empty_iff)
  show ?thesis
    using shots raw
    by (cases max_clips) (auto simp: select_clip_paths_def Let_def take_max_one_empty_iff)
qed

text \<open>
  Claim C7, as amended. The clip check of the assembly stage raises its no-clips error
  exactly when the earlier checks pass, no shot of the manifest has a usable take, and no
  entry of the manifest's raw \<open>"clips"\<close> list exists on disk. When the earlier checks
  pass and a shot has a usable take (or a raw clip exists), the stage goes on with a
  non-empty clip list, whatever \<open>--max-clips\<close> is.
\<close>

theorem assembly_no_clips_iff:
  "(main_clip_paths env fs m max_clips = Inl NoSuccessfulClips \<longleftrightarrow>
      ffmpeg_on_path env \<and> ffprobe_on_path env \<and> audio_exists env \<and> manifest_exists env \<and>
      \<not> has_usable_take fs m \<and> \<not> has_raw_clip fs m) \<and>
   (ffmpeg_on_path env \<and> ffprobe_on_path env \<and> audio_exists env \<and> manifest_exists env \<and>
      (has_usable_take fs m \<or> has_raw_clip fs m) \<longrightarrow>
      (\<exists>clips. clips \<noteq> [] \<and> main_clip_paths env fs m max_clips = Inr clips))"
  using select_clip_paths_empty_iff [of fs m max_clips]
  by (auto simp: main_clip_paths_def Let_def)

theorem assembly_no_clips_iff_witness:
  "main_clip_paths
     \<lparr>ffmpeg_on_path = True, ffprobe_on_path = True, audio_exists = True, manifest_exists = True\<rparr>
     \<lparr>resolve = (\<lambda>p. p), path_exists = (\<lambda>p. True)\<rparr>
     \<lparr>manifest_shots = Some [\<lparr>shot_takes = Some [\<lparr>take_status = Some ''error'',
          take_video_file = None, take_quality_score = None\<rparr>]\<rparr>], manifest_clips = None\<rparr>
     None = Inl NoSuccessfulClips
   \<and> (\<exists>clips. clips \<noteq> [] \<and> main_clip_paths
     \<lparr>ffmpeg_on_path = True, ffprobe_on_path = True, audio_exists = True, manifest_exists = True\<rparr>
     \<lparr>resolve = (\<lambda>p. p), path_exists = (\<lambda>p. True)\<rparr>
     \<lparr>manifest_shots = Some [\<lparr>shot_takes = Some [\<lparr>take_status = Some ''success'',
          take_video_file = Some ''a.mp4'', take_quality_score = Some 0.6\<rparr>]\<rparr>], manifest_clips = None\<rparr>
     None = Inr clips)"
proof -
  let ?env = "\<lparr>ffmpeg_on_path = True, ffprobe_on_path = True, audio_exists = True, manifest_exists = True\<rparr>"
  let ?fs = "\<lparr>resolve = (\<lambda>p. p), path_exists = (\<lambda>p::string. True)\<rparr>"
  let ?bad = "\<lparr>manifest_shots = Some [\<lparr>shot_takes = Some [\<lparr>take_status = Some ''error'',
          take_video_file = None, take_quality_score = None :: real option\<rparr>]\<rparr>], manifest_clips = None\<rparr>"
  let ?good = "\<lparr>manifest_shots = Some [\<lparr>shot_takes = Some [\<lparr>take_status = Some ''success'',
          take_video_file = Some ''a.mp4'', take_quality_score = Some (0.6::real)\<rparr>]\<rparr>], manifest_clips = None\<rparr>"
  have bad: "\<not> has_usable_take ?fs ?bad \<and> \<not> has_raw_clip ?fs ?bad"
    by (simp add: has_usable_take_def has_raw_clip_def usable_def)
  have good: "has_usable_take ?fs ?good"
    by (simp add: has_usable_take_def usable_def status_text_def lower_def lower_char_def)
  have "main_clip_paths ?env ?fs ?bad None = Inl NoSuccessfulClips"
    using assembly_no_clips_iff [of ?env ?fs ?bad None] bad by simp
  moreover have "\<exists>clips. clips \<noteq> [] \<and> main_clip_paths ?env ?fs ?good None = Inr clips"
    using assembly_no_clips_iff [of ?env ?fs ?good None] good by simp
  ultimately show ?thesis by simp
qed

text \<open>
  Claim C7 as stated fails: with no shot at all and one existing file under \<open>"clips"\<close>,
  no shot has a usable take and yet the stage does not raise the error.
\<close>

theorem assembly_raw_clips_counterexample:
  "\<not> (main_clip_paths
        \<lparr>ffmpeg_on_path = True, ffprobe_on_path = True, audio_exists = True, manifest_exists = True\<rparr>
        \<lparr>resolve = (\<lambda>p. p), path_exists = (\<lambda>p. True)\<rparr>
        \<lparr>manifest_shots = Some [], manifest_clips = Some [''a.mp4'']\<rparr>
        None = Inl NoSuccessfulClips
      \<longleftrightarrow> \<not> has_usable_take \<lparr>resolve = (\<lambda>p. p), path_exists = (\<lambda>p. True)\<rparr>
              \<lparr>manifest_shots = Some [], manifest_clips = Some [''a.mp4'']\<rparr>)"
  by (simp add: main_clip_paths_def select_clip_paths_def has_usable_take_def)

lemma takes_for_shot_formula:
  "takes_for_shot shot max_takes =
     (let planned = max 1 (case planned_takes shot of None \<Rightarrow> 1 | Some k \<Rightarrow> k)
      in case max_takes of None \<Rightarrow> planned | Some c \<Rightarrow> min planned (max 1 c))"
  by (auto simp: takes_for_shot_def Let_def split: option.splits)

lemma takes_for_shot_pos: "1 \<le> takes_for_shot shot max_takes"
  by (auto simp: takes_for_shot_def Let_def split: option.splits)

lemma attempts_nonempty: "[1..takes_for_shot shot max_takes] \<noteq> []"
  using takes_for_shot_pos [of shot max_takes] by simp

lemma attempts_length:
  "int (length [1..takes_for_shot shot max_takes]) =
     (let planned = max 1 (case planned_takes shot of None \<Rightarrow> 1 | Some k \<Rightarrow> k)
      in case max_takes of None \<Rightarrow> planned | Some c \<Rightarrow> min planned (max 1 c))"
proof -
  have "int (length [1..takes_for_shot shot max_takes]) = takes_for_shot shot max_takes"
    using takes_for_shot_pos [of shot max_takes] by simp
  then show ?thesis by (simp only: takes_for_shot_formula)
qed

text \<open>
  Claim C9. For a plan with a non-empty shot list whose other argument checks pass, and
  any values of the two caps (absent, zero and negative included), the generation stage
  processes the first \<open>max(1, max_shots)\<close> shots, hence at least one, and for each of them
  attempts the takes \<open>1 .. min(planned, max(1, max_takes_per_shot))\<close> with \<open>planned\<close> at
  least 1, hence at least one take.
\<close>

theorem generation_processes_shot_and_take:
  assumes "shots \<noteq> []"
    and "plan_exists env"
    and "execute_generation env \<longrightarrow> wan_root_given env \<and> wgp_exists env"
    and "wan_root_given env \<longrightarrow> wan_root_exists env"
  shows "\<exists>schedule.
           main_schedule env (Some shots) max_shots max_takes = Inr schedule \<and>
           schedule \<noteq> [] \<and>
           map fst schedule =
             (case max_shots of None \<Rightarrow> shots | Some k \<Rightarrow> take (nat (max 1 k)) shots) \<and>
           (\<forall>(shot, attempts)\<in>set schedule.
              attempts \<noteq> [] \<and>
              attempts = [1..takes_for_shot shot max_takes] \<and>
              int (length attempts) =
                (let planned = max 1 (case planned_takes shot of None \<Rightarrow> 1 | Some k \<Rightarrow> k)
                 in case max_takes of None \<Rightarrow> planned | Some c \<Rightarrow> min planned (max 1 c)))"
proof -
  let ?capped = "case max_shots of None \<Rightarrow> shots | Some k \<Rightarrow> take (nat (max 1 k)) shots"
  let ?schedule = "map (\<lambda>shot. (shot, [1..takes_for_shot shot max_takes])) ?capped"
  have run: "main_schedule env (Some shots) max_shots max_takes = Inr ?schedule"
    using assms by (auto simp: main_schedule_def)
  have ne: "?capped \<noteq> []"
    using assms(1) by (cases max_shots) (simp_all add: take_max_one_empty_iff)
  have fsts: "map fst ?schedule = ?capped"
    by (simp add: comp_def)
  have each: "\<forall>(shot, attempts)\<in>set ?schedule.
              attempts \<noteq> [] \<and>
              attempts = [1..takes_for_shot shot max_takes] \<and>
              int (length attempts) =
                (let planned = max 1 (case planned_takes shot of None \<Rightarrow> 1 | Some k \<Rightarrow> k)
                 in case max_takes of None \<Rightarrow> planned | Some c \<Rightarrow> min planned (max 1 c))"
  proof (intro ballI)
    fix entry assume "entry \<in> set ?schedule"
    then obtain shot where entry: "entry = (shot, [1..takes_for_shot shot max_takes])"
      by auto
    have "[1..takes_for_shot shot max_takes] \<noteq> []"
      by (rule attempts_nonempty)
    moreover note attempts_length [of shot max_takes]
    ultimately show "case entry of (shot, attempts) \<Rightarrow>
              attempts \<noteq> [] \<and>
              attempts = [1..takes_for_shot shot max_takes] \<and>
              int (length attempts) =
                (let planned = max 1 (case planned_takes shot of None \<Rightarrow> 1 | Some k \<Rightarrow> k)
                 in case max_takes of None \<Rightarrow> planned | Some c \<Rightarrow> min planned (max 1 c))"
      unfolding entry prod.case by blast
  qed
  from run ne fsts each show ?thesis by (intro exI [of _ ?schedule]) simp
qed

theorem generation_processes_shot_and_take_witness:
  "main_schedule
     \<lparr>plan_exists = True, execute_generation = False, wan_root_given = False,
      wan_root_exists = False, wgp_exists = False\<rparr>
     (Some [\<lparr>planned_takes = Some 3\<rparr>, \<lparr>planned_takes = Some 2\<rparr>]) (Some 0) (Some (- 5))
   = Inr [(\<lparr>planned_takes = Some 3\<rparr>, [1])]"
proof -
  let ?env = "\<lparr>plan_exists = True, execute_generation = False, wan_root_given = False,
      wan_root_exists = False, wgp_exists = False\<rparr>"
  let ?shots = "[\<lparr>planned_takes = Some 3\<rparr>, \<lparr>planned_takes = Some 2\<rparr>]"
  have "\<exists>schedule.
          main_schedule ?env (Some ?shots) (Some 0) (Some (- 5)) = Inr schedule \<and>
          map fst schedule = [\<lparr>planned_takes = Some 3\<rparr>] \<and>
          (\<forall>(shot, attempts)\<in>set schedule. attempts = [1..takes_for_shot shot (Some (- 5))])"
    using generation_processes_shot_and_take [of ?shots ?env "Some 0" "Some (- 5)"]
    by auto
  then show ?thesis
    by (auto simp: takes_for_shot_def map_eq_Cons_conv)
qed

section \<open>Facts about tempo inference and beat snapping\<close>

text \<open>
  Claim C5, as amended. When the beat tracker returns at least four beats inside the track,
  the reported BPM is \<open>60 / median\<close> of the positive inter-beat intervals whenever that
  value lies in the range 40 to 220, whatever the raw tempo estimate is; otherwise it is
  the raw tempo estimate, raised to at least 1. Either value is rounded to three decimals.
\<close>

theorem detected_bpm_prefers_interval_median:
  assumes "4 \<le> length (clip_round beat_times duration_seconds)"
  shows "fst (librosa_tempo tempo beat_times duration_seconds) =
           py_round
             (let ivs = filter (\<lambda>x. 0 < x) (intervals (clip_round beat_times duration_seconds))
              in if ivs \<noteq> [] \<and> 40 \<le> 60 / median ivs \<and> 60 / median ivs \<le> 220
                 then 60 / median ivs
                 else max 1 tempo) 3"
proof -
  let ?beats = "clip_round beat_times duration_seconds"
  let ?ivs = "filter (\<lambda>x. 0 < x) (intervals ?beats)"
  have tempo: "fst (librosa_tempo tempo beat_times duration_seconds) =
                 py_round (infer_bpm_from_beats ?beats (max 1 tempo)) 3"
    using assms by (simp add: librosa_tempo_def Let_def)
  have "infer_bpm_from_beats ?beats (max 1 tempo) =
          (if ?ivs \<noteq> [] \<and> 40 \<le> 60 / median ?ivs \<and> 60 / median ?ivs \<le> 220
           then 60 / median ?ivs else max 1 tempo)"
  proof (cases "?ivs = []")
    case True
    then show ?thesis by (simp add: infer_bpm_from_beats_def)
  next
    case False
    show ?thesis
    proof (cases "median ?ivs \<le> 0")
      case True
      then have "60 / median ?ivs \<le> 0" by (simp add: divide_nonneg_nonpos)
      then have "\<not> 40 \<le> 60 / median ?ivs" by linarith
      with True False assms show ?thesis
        by (simp add: infer_bpm_from_beats_def Let_def)
    next
      case pos: False
      with False assms show ?thesis
        by (auto simp: infer_bpm_from_beats_def Let_def not_le not_less)
    qed
  qed
  with tempo show ?thesis by (simp add: Let_def)
qed

theorem detected_bpm_prefers_interval_median_witness:
  "4 \<le> length (clip_round [0, 1, 2, 3] 10) \<and> fst (librosa_tempo 120 [0, 1, 2, 3] 10) = 60"
proof -
  have len: "4 \<le> length (clip_round [0, 1, 2, 3] 10)"
    by code_simp
  have "py_round
          (let ivs = filter (\<lambda>x. 0 < x) (intervals (clip_round [0, 1, 2, 3] 10))
           in if ivs \<noteq> [] \<and> 40 \<le> 60 / median ivs \<and> 60 / median ivs \<le> 220
              then 60 / median ivs else max 1 120) 3 = 60"
    by code_simp
  with detected_bpm_prefers_interval_median [OF len, of 120] len show ?thesis
    by simp
qed

text \<open>
  Claim C5 as stated fails in both halves. A raw tempo of 120, inside the range, is not
  reported when the beats are one second apart: 60 is. A raw tempo of 300, outside the
  range, is reported as it is when the beats are a tenth of a second apart, although
  \<open>60 / median\<close> is 600.
\<close>

theorem raw_tempo_not_trusted_counterexample:
  "4 \<le> length (snd (librosa_tempo 120 [0, 1, 2, 3] 10)) \<and>
   fst (librosa_tempo 120 [0, 1, 2, 3] 10) \<noteq> 120 \<and>
   4 \<le> length (snd (librosa_tempo 300 [0, 1 / 10, 2 / 10, 3 / 10] 10)) \<and>
   fst (librosa_tempo 300 [0, 1 / 10, 2 / 10, 3 / 10] 10)
     \<noteq> 60 / median (intervals (snd (librosa_tempo 300 [0, 1 / 10, 2 / 10, 3 / 10] 10)))"
  by code_simp

lemma snap_forward_in_set: "beats \<noteq> [] \<Longrightarrow> snap_forward target beats \<in> set beats"
  by (auto simp: snap_forward_def find_Some_iff split: option.splits)

lemma find_first_at_or_after:
  "find (\<lambda>beat. target \<le> beat) beats = None \<longleftrightarrow> (\<forall>b\<in>set beats. b < (target :: real))"
  by (induction beats) (auto simp: not_le)

text \<open>
  Claim C2, as amended. On a non-empty ascending beat list \<open>_snap_forward\<close> returns a beat.
  If some beat is at or after the target, it is the first such beat: at or after the
  target and no later than any other beat at or after it. If every beat is before the
  target, it is the last beat, which is before the target.
\<close>

theorem snap_forward_next_beat_or_last:
  assumes "beats \<noteq> []" and "sorted beats"
  shows "snap_forward target beats \<in> set beats \<and>
         ((\<exists>b\<in>set beats. target \<le> b) \<longrightarrow>
            target \<le> snap_forward target beats \<and>
            (\<forall>b\<in>set beats. target \<le> b \<longrightarrow> snap_forward target beats \<le> b)) \<and>
         ((\<forall>b\<in>set beats. b < target) \<longrightarrow>
            snap_forward target beats = last beats \<and> snap_forward target beats < target)"
proof (intro conjI impI)
  show "snap_forward target beats \<in> set beats"
    using assms(1) by (rule snap_forward_in_set)
next
  assume "\<exists>b\<in>set beats. target \<le> b"
  then have "find (\<lambda>beat. target \<le> beat) beats \<noteq> None"
    by (auto simp: find_None_iff)
  then obtain beat where found: "find (\<lambda>beat. target \<le> beat) beats = Some beat" by blast
  then have snap: "snap_forward target beats = beat"
    using assms(1) by (simp add: snap_forward_def)
  from found obtain i where i: "i < length beats" "target \<le> beats ! i" "beat = beats ! i"
    "\<forall>j<i. \<not> target \<le> beats ! j"
    by (auto simp: find_Some_iff)
  show "target \<le> snap_forward target beats" using snap i by simp
  show "\<forall>b\<in>set beats. target \<le> b \<longrightarrow> snap_forward target beats \<le> b"
  proof (intro ballI impI)
    fix b assume "b \<in> set beats" "target \<le> b"
    then obtain j where j: "j < length beats" "b = beats ! j" by (auto simp: in_set_conv_nth)
    with \<open>target \<le> b\<close> i(4) have "i \<le> j" by (meson not_le)
    then have "beats ! i \<le> beats ! j" using assms(2) j(1) by (simp add: sorted_nth_mono)
    then show "snap_forward target beats \<le> b" using snap i(3) j(2) by simp
  qed
next
  assume all: "\<forall>b\<in>set beats. b < target"
  then have "find (\<lambda>beat. target \<le> beat) beats = None"
    by (simp add: find_first_at_or_after)
  then show last: "snap_forward target beats = last beats"
    using assms(1) by (simp add: snap_forward_def)
  show "snap_forward target beats < target"
    using all assms(1) last by simp
qed

theorem snap_forward_next_beat_or_last_witness:
  "snap_forward 2 [1, 2, 3] = 2 \<and> snap_forward 5 [1, 2, 3] = 3"
proof -
  have ne: "[1, 2, 3 :: real] \<noteq> []" and asc: "sorted [1, 2, 3 :: real]" by simp_all
  have "2 \<le> snap_forward 2 [1, 2, 3] \<and> snap_forward 2 [1, 2, 3] \<le> 2"
    using snap_forward_next_beat_or_last [OF ne asc, of 2] by simp
  then have "snap_forward 2 [1, 2, 3] = 2" by linarith
  moreover have "snap_forward 5 [1, 2, 3] = 3"
    using snap_forward_next_beat_or_last [OF ne asc, of 5] by simp
  ultimately show ?thesis by simp
qed

text \<open>
  Claim C2 as stated fails when the target is after the last beat: the end is snapped
  backward, to the last beat.
\<close>

theorem snap_forward_backward_counterexample:
  "[1, 2, 3 :: real] \<noteq> [] \<and> sorted [1, 2, 3 :: real] \<and> \<not> 5 \<le> snap_forward 5 [1, 2, 3]"
  by (simp add: snap_forward_def)

section \<open>Facts about rounding\<close>

lemma round_half_even_cases:
  "round_half_even x = \<lfloor>x\<rfloor> \<and> x - of_int \<lfloor>x\<rfloor> \<le> 1 / 2 \<or>
   round_half_even x = \<lfloor>x\<rfloor> + 1 \<and> 1 / 2 \<le> x - of_int \<lfloor>x\<rfloor>"
  by (auto simp: round_half_even_def Let_def)

lemma round_half_even_mono:
  assumes "x \<le> y"
  shows "round_half_even x \<le> round_half_even y"
proof (cases "\<lfloor>x\<rfloor> < \<lfloor>y\<rfloor>")
  case True
  have "round_half_even x \<le> \<lfloor>x\<rfloor> + 1" using round_half_even_cases [of x] by auto
  also have "\<dots> \<le> \<lfloor>y\<rfloor>" using True by simp
  also have "\<dots> \<le> round_half_even y" using round_half_even_cases [of y] by auto
  finally show ?thesis .
next
  case False
  moreover have "\<lfloor>x\<rfloor> \<le> \<lfloor>y\<rfloor>" using assms by (rule floor_mono)
  ultimately have eq: "\<lfloor>x\<rfloor> = \<lfloor>y\<rfloor>" by simp
  then have "x - of_int \<lfloor>x\<rfloor> \<le> y - of_int \<lfloor>y\<rfloor>" using assms by simp
  then show ?thesis
    using eq by (auto simp: round_half_even_def Let_def)
qed

lemma py_round_mono: "x \<le> y \<Longrightarrow> py_round x n \<le> py_round y n"
proof -
  assume "x \<le> y"
  then have "x * 10 ^ n \<le> y * 10 ^ n" by (simp add: mult_right_mono)
  then have "round_half_even (x * 10 ^ n) \<le> round_half_even (y * 10 ^ n)"
    by (rule round_half_even_mono)
  then show ?thesis by (simp add: py_round_def divide_right_mono)
qed

lemma monotone_exact_ops: "monotone_ops exact_ops"
  by (simp add: monotone_ops_def exact_ops_def py_round_mono)

lemma step_length_exact: "step_length exact_ops cursor x = x"
  by (simp add: step_length_def exact_ops_def)

lemma py_round_zero: "py_round 0 n = 0"
  by (simp add: py_round_def round_half_even_def)

section \<open>Facts about the planning loop\<close>

lemma shot_end_le:
  "shot_end ops args duration_seconds beats beat_sec shot_kind cursor \<le> duration_seconds"
  unfolding shot_end_def Let_def by (simp only: min.cobounded1 split: if_split) blast

lemma shot_loop_stop:
  "\<not> cursor < fsub ops duration_seconds (tenth ops) \<Longrightarrow>
     shot_loop ops gen args duration_seconds beats beat_sec sections cursor shot_index rng shots
       = Some shots"
  by (simp add: shot_loop.simps)

text \<open>
  The body of the loop, for any function \<open>f\<close> in the place of the recursive call: under
  the loop condition it is one call of \<open>f\<close>, on the next cursor and the list with one
  more shot.
\<close>

lemma loop_body_call:
  assumes "build_prompt g r (arg_theme a) (arg_style_preset a) (label_at ops s c) (arg_brand a)
             = (prompt, rng')"
  shows "(let section = find_section_at ops c s;
            section_label = (case sec_label section of None \<Rightarrow> ''section'' | Some l \<Rightarrow> l);
            energy = (case sec_energy section of None \<Rightarrow> ''medium'' | Some e \<Rightarrow> e);
            shot_kind = shot_type section_label energy i;
            end_sec = shot_end ops a d bs bb shot_kind c;
            (prompt, rng) =
              build_prompt g r (arg_theme a) (arg_style_preset a) section_label (arg_brand a);
            shot = \<lparr>shot_id = ''shot_'' @ format_03d i,
                    shot_start_sec = fround ops c 4,
                    shot_end_sec = fround ops end_sec 4,
                    shot_duration_sec = fround ops (fsub ops end_sec c) 4,
                    shot_section = section_label,
                    shot_energy = energy,
                    shot_priority = shot_kind,
                    shot_visual_goal = section_descriptor section_label,
                    shot_prompt = prompt,
                    shot_negative_prompt = negative_prompt,
                    shot_quality_hint = quality_hint shot_kind,
                    shot_take_count = takes_for_kind shot_kind a,
                    shot_transition_after = ''cut''\<rparr>
          in f ops g a d bs bb s end_sec (i + 1) rng (sh @ [shot])) =
         f ops g a d bs bb s (next_cursor ops a d bs bb s c i) (i + 1) rng'
           (sh @ [shot_at ops a d bs bb s c i prompt])"
  using assms
  by (simp add: Let_def label_at_def next_cursor_def kind_at_def shot_at_def)

lemma shot_loop_step:
  assumes "cursor < fsub ops duration_seconds (tenth ops)"
    and "build_prompt gen rng (arg_theme args) (arg_style_preset args)
           (label_at ops sections cursor) (arg_brand args) = (prompt, rng')"
  shows "shot_loop ops gen args duration_seconds beats beat_sec sections cursor shot_index rng
           shots =
         shot_loop ops gen args duration_seconds beats beat_sec sections
           (next_cursor ops args duration_seconds beats beat_sec sections cursor shot_index)
           (shot_index + 1) rng'
           (shots @ [shot_at ops args duration_seconds beats beat_sec sections cursor shot_index
                       prompt])"
  by (subst shot_loop.simps) (simp only: assms(1) if_True loop_body_call [OF assms(2)])

text \<open>
  The rule for invariants of the loop: what holds of the cursor and the shots at the
  start, and is kept by an iteration, holds when the loop ends, of the list it returns and
  of a cursor for which the loop condition is false.
\<close>

lemma shot_loop_invariant:
  assumes run: "shot_loop ops gen args duration_seconds beats beat_sec sections cursor
                  shot_index rng shots = Some result"
    and init: "I cursor shots"
    and step: "\<And>cursor shot_index shots (shot :: shot).
       I cursor shots \<Longrightarrow> cursor < fsub ops duration_seconds (tenth ops) \<Longrightarrow>
       shot_start_sec shot = fround ops cursor 4 \<Longrightarrow>
       shot_end_sec shot =
         fround ops (next_cursor ops args duration_seconds beats beat_sec sections cursor
                       shot_index) 4 \<Longrightarrow>
       shot_duration_sec shot =
         fround ops (fsub ops (next_cursor ops args duration_seconds beats beat_sec sections
                                 cursor shot_index) cursor) 4 \<Longrightarrow>
       I (next_cursor ops args duration_seconds beats beat_sec sections cursor shot_index)
         (shots @ [shot])"
  shows "\<exists>c. \<not> c < fsub ops duration_seconds (tenth ops) \<and> I c result"
proof -
  let ?goal = "\<lambda>res. \<exists>c. \<not> c < fsub ops duration_seconds (tenth ops) \<and> I c res"
  let ?P = "\<lambda>o' (g :: 'a prng) a d bs bb s c (i :: nat) (r :: 'a) sh res.
              o' = ops \<and> a = args \<and> d = duration_seconds \<and> bs = beats \<and> bb = beat_sec \<and>
              s = sections \<and> I c sh \<longrightarrow> ?goal res"
  from run have "?P ops gen args duration_seconds beats beat_sec sections cursor shot_index rng
                   shots result"
  proof (rule shot_loop.raw_induct [where P = ?P, rotated])
    fix f :: "float_ops \<Rightarrow> 'a prng \<Rightarrow> plan_args \<Rightarrow> real \<Rightarrow> real list \<Rightarrow> real \<Rightarrow>
                track_section list \<Rightarrow> real \<Rightarrow> nat \<Rightarrow> 'a \<Rightarrow> shot list \<Rightarrow> shot list option"
      and o' g a d bs bb s c i r sh res
    assume IH: "\<And>o' g a d bs bb s c i r sh res.
        f o' g a d bs bb s c i r sh = Some res \<Longrightarrow> ?P o' g a d bs bb s c i r sh res"
      and body: "(if c < fsub o' d (tenth o') then
        let section = find_section_at o' c s;
            section_label = (case sec_label section of None \<Rightarrow> ''section'' | Some l \<Rightarrow> l);
            energy = (case sec_energy section of None \<Rightarrow> ''medium'' | Some e \<Rightarrow> e);
            shot_kind = shot_type section_label energy i;
            end_sec = shot_end o' a d bs bb shot_kind c;
            (prompt, rng) =
              build_prompt g r (arg_theme a) (arg_style_preset a) section_label (arg_brand a);
            shot = \<lparr>shot_id = ''shot_'' @ format_03d i,
                    shot_start_sec = fround o' c 4,
                    shot_end_sec = fround o' end_sec 4,
                    shot_duration_sec = fround o' (fsub o' end_sec c) 4,
                    shot_section = section_label,
                    shot_energy = energy,
                    shot_priority = shot_kind,
                    shot_visual_goal = section_descriptor section_label,
                    shot_prompt = prompt,
                    shot_negative_prompt = negative_prompt,
                    shot_quality_hint = quality_hint shot_kind,
                    shot_take_count = takes_for_kind shot_kind a,
                    shot_transition_after = ''cut''\<rparr>
        in f o' g a d bs bb s end_sec (i + 1) rng (sh @ [shot])
      else Some sh) = Some res"
    show "?P o' g a d bs bb s c i r sh res"
    proof (intro impI, elim conjE)
      assume eqs: "o' = ops" "a = args" "d = duration_seconds" "bs = beats" "bb = beat_sec"
        "s = sections" and inv: "I c sh"
      show "?goal res"
      proof (cases "c < fsub o' d (tenth o')")
        case False
        with body have "res = sh" by (simp only: if_False option.inject)
        with False inv eqs show ?thesis by blast
      next
        case True
        obtain prompt rng' where bp: "build_prompt g r (arg_theme a) (arg_style_preset a)
            (label_at o' s c) (arg_brand a) = (prompt, rng')"
          by (cases "build_prompt g r (arg_theme a) (arg_style_preset a) (label_at o' s c)
                      (arg_brand a)") blast
        let ?next = "next_cursor o' a d bs bb s c i"
        let ?shot = "shot_at o' a d bs bb s c i prompt"
        from body True have call: "f o' g a d bs bb s ?next (i + 1) rng' (sh @ [?shot]) = Some res"
          by (simp only: if_True loop_body_call [OF bp])
        have "I ?next (sh @ [?shot])"
          unfolding eqs
          using inv True [unfolded eqs]
          by (rule step) (simp_all add: shot_at_def)
        with IH [OF call] eqs show ?thesis by simp
      qed
    qed
  qed
  with init show ?thesis by simp
qed

text \<open>
  The end of a shot, by the two tests that close the loop body: \<open>e\<close> is the end after the
  clamp of line 230.
\<close>

lemma shot_end_form:
  "\<exists>e. (e < duration_seconds \<longrightarrow> fadd ops cursor (arg_min_shot_seconds args) \<le> e) \<and>
       shot_end ops args duration_seconds beats beat_sec shot_kind cursor =
         (if (if arg_max_shot_seconds args < fsub ops e cursor
              then min duration_seconds (fadd ops cursor (arg_max_shot_seconds args))
              else e) \<le> cursor
          then min duration_seconds
                 (fadd ops cursor (max beat_sec (arg_min_shot_seconds args)))
          else (if arg_max_shot_seconds args < fsub ops e cursor
                then min duration_seconds (fadd ops cursor (arg_max_shot_seconds args))
                else e))"
proof -
  define snapped where "snapped =
    (if beats \<noteq> []
     then snap_forward
            (fadd ops cursor
               (max (arg_min_shot_seconds args)
                  (min (arg_max_shot_seconds args)
                     (fmul ops
                        (if shot_kind = ''hero'' then 4
                         else if shot_kind = ''standard'' then 6 else 8) beat_sec)))) beats
     else fadd ops cursor
            (max (arg_min_shot_seconds args)
               (min (arg_max_shot_seconds args)
                  (fmul ops
                     (if shot_kind = ''hero'' then 4
                      else if shot_kind = ''standard'' then 6 else 8) beat_sec))))"
  define e where
    "e = min duration_seconds (max (fadd ops cursor (arg_min_shot_seconds args)) snapped)"
  have "e < duration_seconds \<longrightarrow> fadd ops cursor (arg_min_shot_seconds args) \<le> e"
    unfolding e_def by (simp add: min_def max_def)
  moreover have "shot_end ops args duration_seconds beats beat_sec shot_kind cursor =
         (if (if arg_max_shot_seconds args < fsub ops e cursor
              then min duration_seconds (fadd ops cursor (arg_max_shot_seconds args))
              else e) \<le> cursor
          then min duration_seconds
                 (fadd ops cursor (max beat_sec (arg_min_shot_seconds args)))
          else (if arg_max_shot_seconds args < fsub ops e cursor
                then min duration_seconds (fadd ops cursor (arg_max_shot_seconds args))
                else e))"
    unfolding shot_end_def Let_def e_def snapped_def by (rule refl)
  ultimately show ?thesis by blast
qed

lemma shot_end_branches:
  "\<exists>e. (e < duration_seconds \<longrightarrow> fadd ops cursor (arg_min_shot_seconds args) \<le> e) \<and>
       (shot_end ops args duration_seconds beats beat_sec shot_kind cursor =
          min duration_seconds (fadd ops cursor (max beat_sec (arg_min_shot_seconds args))) \<or>
        shot_end ops args duration_seconds beats beat_sec shot_kind cursor =
          min duration_seconds (fadd ops cursor (arg_max_shot_seconds args)) \<or>
        shot_end ops args duration_seconds beats beat_sec shot_kind cursor = e \<and>
          \<not> arg_max_shot_seconds args < fsub ops e cursor)"
proof -
  define en where "en = shot_end ops args duration_seconds beats beat_sec shot_kind cursor"
  obtain e where e: "e < duration_seconds \<longrightarrow> fadd ops cursor (arg_min_shot_seconds args) \<le> e"
    and form: "en =
         (if (if arg_max_shot_seconds args < fsub ops e cursor
              then min duration_seconds (fadd ops cursor (arg_max_shot_seconds args))
              else e) \<le> cursor
          then min duration_seconds
                 (fadd ops cursor (max beat_sec (arg_min_shot_seconds args)))
          else (if arg_max_shot_seconds args < fsub ops e cursor
                then min duration_seconds (fadd ops cursor (arg_max_shot_seconds args))
                else e))"
    unfolding en_def
    using shot_end_form [of duration_seconds ops cursor args beats beat_sec shot_kind] by blast
  have "en = min duration_seconds (fadd ops cursor (max beat_sec (arg_min_shot_seconds args))) \<or>
        en = min duration_seconds (fadd ops cursor (arg_max_shot_seconds args)) \<or>
        en = e \<and> \<not> arg_max_shot_seconds args < fsub ops e cursor"
    by (cases "arg_max_shot_seconds args < fsub ops e cursor";
        cases "(if arg_max_shot_seconds args < fsub ops e cursor
              then min duration_seconds (fadd ops cursor (arg_max_shot_seconds args))
              else e) \<le> cursor")
       (simp_all only: form if_True if_False simp_thms)
  with e show ?thesis unfolding en_def by blast
qed

text \<open>
  When the loop ends. If the arithmetic is monotone and lets the cursor advance, every
  iteration moves the cursor forward by at least \<open>step\<close>, or to the end of the track, so
  the loop ends and the planner returns. In exact arithmetic it is so whenever the
  minimum and the maximum shot length are positive.
\<close>

lemma shot_end_advances:
  assumes mono: "monotone_ops ops"
    and adv: "advances ops args duration_seconds step"
    and c: "0 \<le> cursor" "cursor < duration_seconds"
  shows "min duration_seconds (cursor + step)
           \<le> shot_end ops args duration_seconds beats beat_sec shot_kind cursor"
proof -
  let ?M = "arg_max_shot_seconds args" and ?m = "arg_min_shot_seconds args"
  define en where "en = shot_end ops args duration_seconds beats beat_sec shot_kind cursor"
  from mono have add: "\<And>x y. x \<le> y \<Longrightarrow> fadd ops cursor x \<le> fadd ops cursor y"
    by (simp add: monotone_ops_def)
  from adv c have m: "cursor + step \<le> fadd ops cursor ?m"
    and M: "cursor + step \<le> fadd ops cursor ?M"
    by (simp_all add: advances_def)
  have le: "en \<le> duration_seconds" unfolding en_def by (rule shot_end_le)
  from shot_end_branches [of duration_seconds ops cursor args beats beat_sec shot_kind]
  consider (reset) "en = min duration_seconds (fadd ops cursor (max beat_sec ?m))"
    | (cut) "en = min duration_seconds (fadd ops cursor ?M)"
    | (keep) "en < duration_seconds \<longrightarrow> fadd ops cursor ?m \<le> en"
    unfolding en_def [symmetric] by auto
  then have "min duration_seconds (cursor + step) \<le> en"
  proof cases
    case reset
    have "fadd ops cursor ?m \<le> fadd ops cursor (max beat_sec ?m)" by (rule add) simp
    with m reset show ?thesis by simp
  next
    case cut
    with M show ?thesis by simp
  next
    case keep
    with m le show ?thesis by (cases "en < duration_seconds") simp_all
  qed
  then show ?thesis unfolding en_def .
qed

lemma shot_loop_returns:
  assumes mono: "monotone_ops ops"
    and adv: "advances ops args duration_seconds step"
  shows "0 \<le> cursor \<Longrightarrow>
         \<exists>result. shot_loop ops gen args duration_seconds beats beat_sec sections cursor
                    shot_index rng shots = Some result"
proof (induction "nat \<lceil>(duration_seconds - cursor) / step\<rceil>"
    arbitrary: cursor shot_index rng shots rule: less_induct)
  case less
  from adv have step: "0 < step" by (simp add: advances_def)
  from mono have G: "fsub ops duration_seconds (tenth ops) \<le> duration_seconds"
    by (simp add: monotone_ops_def)
  show ?case
  proof (cases "cursor < fsub ops duration_seconds (tenth ops)")
    case False
    then show ?thesis by (simp add: shot_loop_stop)
  next
    case True
    with G have inside: "cursor < duration_seconds" by simp
    let ?next = "next_cursor ops args duration_seconds beats beat_sec sections cursor shot_index"
    obtain prompt rng' where bp: "build_prompt gen rng (arg_theme args) (arg_style_preset args)
           (label_at ops sections cursor) (arg_brand args) = (prompt, rng')"
      by (cases "build_prompt gen rng (arg_theme args) (arg_style_preset args)
                   (label_at ops sections cursor) (arg_brand args)") blast
    have far: "min duration_seconds (cursor + step) \<le> ?next"
      unfolding next_cursor_def
      using mono adv less.prems inside by (rule shot_end_advances)
    with less.prems step inside have pos: "0 \<le> ?next" by (simp add: min_def split: if_splits)
    have "(duration_seconds - ?next) / step \<le> (duration_seconds - cursor) / step - 1
          \<or> duration_seconds - ?next \<le> 0"
    proof (cases "duration_seconds \<le> ?next")
      case True
      then show ?thesis by simp
    next
      case False
      with far have "duration_seconds - ?next \<le> duration_seconds - cursor - step"
        by (simp add: min_def split: if_splits)
      then have "(duration_seconds - ?next) / step \<le> (duration_seconds - cursor - step) / step"
        using step by (simp add: divide_right_mono)
      also have "\<dots> = (duration_seconds - cursor) / step - 1"
        using step by (simp add: diff_divide_distrib)
      finally show ?thesis ..
    qed
    then have "nat \<lceil>(duration_seconds - ?next) / step\<rceil>
                 < nat \<lceil>(duration_seconds - cursor) / step\<rceil>"
    proof
      assume a: "(duration_seconds - ?next) / step \<le> (duration_seconds - cursor) / step - 1"
      have "\<lceil>(duration_seconds - ?next) / step\<rceil> \<le> \<lceil>(duration_seconds - cursor) / step - 1\<rceil>"
        using a by (rule ceiling_mono)
      also have "\<dots> = \<lceil>(duration_seconds - cursor) / step\<rceil> - 1" by simp
      finally have "\<lceil>(duration_seconds - ?next) / step\<rceil>
                      < \<lceil>(duration_seconds - cursor) / step\<rceil>" by simp
      moreover have "0 < \<lceil>(duration_seconds - cursor) / step\<rceil>"
        using inside step by simp
      ultimately show ?thesis by simp
    next
      assume "duration_seconds - ?next \<le> 0"
      then have "(duration_seconds - ?next) / step \<le> 0"
        using step by (simp add: divide_le_0_iff)
      then have "\<lceil>(duration_seconds - ?next) / step\<rceil> \<le> 0" by (simp add: ceiling_le_iff)
      moreover have "0 < \<lceil>(duration_seconds - cursor) / step\<rceil>"
        using inside step by simp
      ultimately show ?thesis by simp
    qed
    from less.hyps [OF this pos]
    show ?thesis by (simp only: shot_loop_step [OF True bp])
  qed
qed

lemma build_shots_planned:
  "build_shots ops gen an args = Some (Inr shots) \<longleftrightarrow>
     0 < float_or (an_duration_seconds an) 0 \<and>
     (\<exists>raw. planned_shots ops gen an args = Some raw \<and> shots = merge_tail ops args raw)"
  by (auto simp: build_shots_def planned_shots_def Let_def split: option.splits)

lemma planner_returns:
  assumes "0 < float_or (an_duration_seconds an) 0"
    and "monotone_ops ops"
    and "advances ops args (float_or (an_duration_seconds an) 0) step"
  shows "\<exists>shots. build_shots ops gen an args = Some (Inr shots)"
proof -
  have "\<exists>raw. planned_shots ops gen an args = Some raw"
    unfolding planned_shots_def using assms(2,3) by (rule shot_loop_returns) simp
  then obtain raw where "planned_shots ops gen an args = Some raw" ..
  with assms(1) show ?thesis by (simp add: build_shots_planned)
qed

lemma advances_exact:
  "0 < arg_min_shot_seconds args \<Longrightarrow> 0 < arg_max_shot_seconds args \<Longrightarrow>
     advances exact_ops args duration_seconds
       (min (arg_min_shot_seconds args) (arg_max_shot_seconds args))"
  by (simp add: advances_def exact_ops_def)

lemma contiguous_snoc:
  assumes "contiguous shots"
    and "shots \<noteq> [] \<longrightarrow> shot_end_sec (last shots) = shot_start_sec shot"
  shows "contiguous (shots @ [shot])"
  unfolding contiguous_def
proof (intro allI impI)
  fix i assume i: "Suc i < length (shots @ [shot])"
  show "shot_end_sec ((shots @ [shot]) ! i) = shot_start_sec ((shots @ [shot]) ! Suc i)"
  proof (cases "Suc i < length shots")
    case True
    then show ?thesis using assms(1) by (simp add: contiguous_def nth_append)
  next
    case False
    with i have len: "Suc i = length shots" by simp
    then have ne: "shots \<noteq> []" by auto
    have "i = length shots - 1" using len by simp
    then have "(shots @ [shot]) ! i = last shots"
      using ne by (simp add: nth_append last_conv_nth)
    moreover have "(shots @ [shot]) ! Suc i = shot"
      using len by (simp add: nth_append)
    ultimately show ?thesis using assms(2) ne by simp
  qed
qed

lemma two_last: "2 \<le> length xs \<Longrightarrow> \<exists>ys p t. xs = ys @ [p, t]"
proof -
  assume "2 \<le> length xs"
  then have ne: "xs \<noteq> []" and ne': "butlast xs \<noteq> []"
    by (auto simp: length_0_conv [symmetric] simp del: length_0_conv)
  have "xs = butlast xs @ [last xs]" using ne by simp
  also have "butlast xs = butlast (butlast xs) @ [last (butlast xs)]" using ne' by simp
  finally have "xs = butlast (butlast xs) @ [last (butlast xs), last xs]" by simp
  then show ?thesis by blast
qed

lemma merge_tail_snoc2:
  "merge_tail ops args (ys @ [p, t]) =
     (if shot_duration_sec t < arg_min_shot_seconds args
      then ys @ [p\<lparr>shot_end_sec := shot_end_sec t,
                   shot_duration_sec :=
                     fround ops (fsub ops (shot_end_sec t) (shot_start_sec p)) 4\<rparr>]
      else ys @ [p, t])"
  by (simp add: merge_tail_def Let_def nth_append butlast_append)

lemma merge_tail_short: "length shots < 2 \<Longrightarrow> merge_tail ops args shots = shots"
  by (simp add: merge_tail_def)

lemma merge_tail_cases:
  "merge_tail ops args shots = shots \<or>
   (\<exists>ys p t. shots = ys @ [p, t] \<and> shot_duration_sec t < arg_min_shot_seconds args \<and>
      merge_tail ops args shots =
        ys @ [p\<lparr>shot_end_sec := shot_end_sec t,
                 shot_duration_sec :=
                   fround ops (fsub ops (shot_end_sec t) (shot_start_sec p)) 4\<rparr>])"
proof (cases "2 \<le> length shots")
  case False
  then show ?thesis by (simp add: merge_tail_short)
next
  case True
  then obtain ys p t where "shots = ys @ [p, t]" using two_last by blast
  then show ?thesis by (auto simp: merge_tail_snoc2)
qed

lemma merge_tail_keeps_chain:
  assumes "shots \<noteq> []" and "contiguous shots"
  shows "merge_tail ops args shots \<noteq> [] \<and>
         shot_start_sec (hd (merge_tail ops args shots)) = shot_start_sec (hd shots) \<and>
         shot_end_sec (last (merge_tail ops args shots)) = shot_end_sec (last shots) \<and>
         contiguous (merge_tail ops args shots)"
  using merge_tail_cases [of ops args shots]
proof
  assume "merge_tail ops args shots = shots"
  with assms show ?thesis by simp
next
  assume "\<exists>ys p t. shots = ys @ [p, t] \<and> shot_duration_sec t < arg_min_shot_seconds args \<and>
      merge_tail ops args shots =
        ys @ [p\<lparr>shot_end_sec := shot_end_sec t,
                 shot_duration_sec :=
                   fround ops (fsub ops (shot_end_sec t) (shot_start_sec p)) 4\<rparr>]"
  then obtain ys p t where shots: "shots = ys @ [p, t]"
    and merged: "merge_tail ops args shots =
        ys @ [p\<lparr>shot_end_sec := shot_end_sec t,
                 shot_duration_sec :=
                   fround ops (fsub ops (shot_end_sec t) (shot_start_sec p)) 4\<rparr>]"
    by blast
  let ?p = "p\<lparr>shot_end_sec := shot_end_sec t,
               shot_duration_sec :=
                 fround ops (fsub ops (shot_end_sec t) (shot_start_sec p)) 4\<rparr>"
  have hd: "shot_start_sec (hd (ys @ [?p])) = shot_start_sec (hd shots)"
    by (cases ys) (simp_all add: shots)
  have last: "shot_end_sec (last (ys @ [?p])) = shot_end_sec (last shots)"
    by (simp add: shots)
  have "contiguous (ys @ [?p])"
    unfolding contiguous_def
  proof (intro allI impI)
    fix i assume i: "Suc i < length (ys @ [?p])"
    then have "Suc i < length shots" by (simp add: shots)
    then have c: "shot_end_sec (shots ! i) = shot_start_sec (shots ! Suc i)"
      using assms(2) by (simp add: contiguous_def)
    have a: "(ys @ [?p]) ! i = shots ! i" using i by (simp add: shots nth_append)
    have b: "shot_start_sec ((ys @ [?p]) ! Suc i) = shot_start_sec (shots ! Suc i)"
      using i by (auto simp: shots nth_append nth_Cons')
    show "shot_end_sec ((ys @ [?p]) ! i) = shot_start_sec ((ys @ [?p]) ! Suc i)"
      using a b c by simp
  qed
  with hd last show ?thesis by (simp add: merged)
qed

lemma chain_to_step:
  fixes shot :: shot
  assumes inv: "chain_to ops duration_seconds cursor shots"
    and s: "shot_start_sec shot = fround ops cursor 4"
      "shot_end_sec shot =
         fround ops (next_cursor ops args duration_seconds beats beat_sec sections cursor
                       shot_index) 4"
  shows "chain_to ops duration_seconds
           (next_cursor ops args duration_seconds beats beat_sec sections cursor shot_index)
           (shots @ [shot])"
proof -
  let ?next = "next_cursor ops args duration_seconds beats beat_sec sections cursor shot_index"
  have le: "?next \<le> duration_seconds"
    unfolding next_cursor_def by (rule shot_end_le)
  have hd: "shot_start_sec (hd (shots @ [shot])) = fround ops 0 4"
    using inv s(1) by (cases shots) (simp_all add: chain_to_def)
  have "contiguous (shots @ [shot])"
    using inv s(1) by (intro contiguous_snoc) (simp_all add: chain_to_def)
  with le hd s(2) show ?thesis
    by (simp add: chain_to_def)
qed

lemma chain_to_start: "0 \<le> duration_seconds \<Longrightarrow> chain_to ops duration_seconds 0 []"
  by (simp add: chain_to_def contiguous_def)

lemma returned_shots_chain:
  assumes "build_shots ops gen an args = Some (Inr shots)"
    and "fround ops 0 4 = 0"
  shows "(0 < fsub ops (float_or (an_duration_seconds an) 0) (tenth ops) \<longrightarrow> shots \<noteq> []) \<and>
         (shots \<noteq> [] \<longrightarrow>
            shot_start_sec (hd shots) = 0 \<and>
            (\<exists>c. fsub ops (float_or (an_duration_seconds an) 0) (tenth ops) \<le> c \<and>
                 c \<le> float_or (an_duration_seconds an) 0 \<and>
                 shot_end_sec (last shots) = fround ops c 4)) \<and>
         (\<forall>i. Suc i < length shots \<longrightarrow>
            shot_end_sec (shots ! i) = shot_start_sec (shots ! Suc i))"
proof -
  let ?D = "float_or (an_duration_seconds an) 0"
  from assms(1) obtain raw where d: "0 < ?D"
    and raw: "planned_shots ops gen an args = Some raw"
    and shots: "shots = merge_tail ops args raw"
    by (auto simp: build_shots_planned)
  from d have "chain_to ops ?D 0 []" by (simp add: chain_to_start)
  with raw [unfolded planned_shots_def]
  have "\<exists>c. \<not> c < fsub ops ?D (tenth ops) \<and> chain_to ops ?D c raw"
  proof (rule shot_loop_invariant)
    fix cursor :: real and shot_index :: nat and shots :: "shot list" and shot :: shot
    assume "chain_to ops ?D cursor shots"
      and "shot_start_sec shot = fround ops cursor 4"
      and "shot_end_sec shot =
             fround ops (next_cursor ops args ?D (filter (\<lambda>v. 0 \<le> v) (an_beats an))
               (beat_interval ops (filter (\<lambda>v. 0 \<le> v) (an_beats an)) (float_or (an_bpm an) 120))
               (an_sections an) cursor shot_index) 4"
    then show "chain_to ops ?D
             (next_cursor ops args ?D (filter (\<lambda>v. 0 \<le> v) (an_beats an))
               (beat_interval ops (filter (\<lambda>v. 0 \<le> v) (an_beats an)) (float_or (an_bpm an) 120))
               (an_sections an) cursor shot_index) (shots @ [shot])"
      by (rule chain_to_step)
  qed
  then obtain c where c: "fsub ops ?D (tenth ops) \<le> c" and chain: "chain_to ops ?D c raw"
    by (auto simp: not_less)
  from chain have le: "c \<le> ?D" and cont: "contiguous raw"
    and empty: "raw = [] \<longrightarrow> c = 0"
    and ends: "raw \<noteq> [] \<longrightarrow> shot_start_sec (hd raw) = 0 \<and> shot_end_sec (last raw) = fround ops c 4"
    by (simp_all add: chain_to_def assms(2))
  have nonempty: "0 < fsub ops ?D (tenth ops) \<longrightarrow> shots \<noteq> []"
  proof
    assume "0 < fsub ops ?D (tenth ops)"
    with c empty have ne: "raw \<noteq> []" by auto
    from merge_tail_keeps_chain [OF ne cont, of ops args] show "shots \<noteq> []"
      by (simp add: shots)
  qed
  have adjacent: "\<forall>i. Suc i < length shots \<longrightarrow>
                    shot_end_sec (shots ! i) = shot_start_sec (shots ! Suc i)"
  proof (cases "raw = []")
    case True
    then show ?thesis by (simp add: shots merge_tail_short)
  next
    case False
    from merge_tail_keeps_chain [OF False cont, of ops args] show ?thesis
      by (simp add: shots contiguous_def)
  qed
  have last: "shots \<noteq> [] \<longrightarrow>
            shot_start_sec (hd shots) = 0 \<and>
            (\<exists>c. fsub ops ?D (tenth ops) \<le> c \<and> c \<le> ?D \<and>
                 shot_end_sec (last shots) = fround ops c 4)"
  proof
    assume "shots \<noteq> []"
    then have ne: "raw \<noteq> []" by (auto simp: shots merge_tail_short)
    from merge_tail_keeps_chain [OF ne cont, of ops args] ends ne
    have "shot_start_sec (hd shots) = 0" and "shot_end_sec (last shots) = fround ops c 4"
      by (simp_all add: shots)
    with c le show "shot_start_sec (hd shots) = 0 \<and>
            (\<exists>c. fsub ops ?D (tenth ops) \<le> c \<and> c \<le> ?D \<and>
                 shot_end_sec (last shots) = fround ops c 4)"
      by blast
  qed
  from nonempty last adjacent show ?thesis by (intro conjI)
qed


text \<open>
  Claim C1, as amended. The planner returns a shot list when the duration \<open>D\<close> is
  positive and the arithmetic is monotone and lets the cursor advance (in doubles the
  loop need not end otherwise). Whenever it returns a shot list, each shot of it ends
  exactly where the next one starts. If the list is not empty, the first shot starts at
  \<open>round(0.0, 4)\<close>, which is 0, and the last shot ends at \<open>round(c, 4)\<close> for the final
  cursor \<open>c\<close>, which lies between \<open>D - 0.1\<close>, as the loop condition computes it, and
  \<open>D\<close>: the loop stops as soon as the cursor is within 0.1 seconds of the end, so the
  last end need not be \<open>D\<close>. The list is not empty when \<open>0 < D - 0.1\<close>. What is said of a
  returned list holds whatever the floating-point operations compute, rounding of zero
  to zero apart.
\<close>

theorem shots_contiguous_to_last_cursor:
  assumes "fround ops 0 4 = 0"
  shows "(0 < float_or (an_duration_seconds an) 0 \<and> monotone_ops ops \<and>
          advances ops args (float_or (an_duration_seconds an) 0) step \<longrightarrow>
            (\<exists>shots. build_shots ops gen an args = Some (Inr shots))) \<and>
         (\<forall>shots. build_shots ops gen an args = Some (Inr shots) \<longrightarrow>
            (0 < fsub ops (float_or (an_duration_seconds an) 0) (tenth ops) \<longrightarrow> shots \<noteq> []) \<and>
            (shots \<noteq> [] \<longrightarrow>
               shot_start_sec (hd shots) = 0 \<and>
               (\<exists>c. fsub ops (float_or (an_duration_seconds an) 0) (tenth ops) \<le> c \<and>
                    c \<le> float_or (an_duration_seconds an) 0 \<and>
                    shot_end_sec (last shots) = fround ops c 4)) \<and>
            (\<forall>i. Suc i < length shots \<longrightarrow>
               shot_end_sec (shots ! i) = shot_start_sec (shots ! Suc i)))"
proof (intro conjI allI impI)
  assume "0 < float_or (an_duration_seconds an) 0 \<and> monotone_ops ops \<and>
          advances ops args (float_or (an_duration_seconds an) 0) step"
  then show "\<exists>shots. build_shots ops gen an args = Some (Inr shots)"
    by (blast intro: planner_returns)
next
  fix shots
  assume run: "build_shots ops gen an args = Some (Inr shots)"
  note chain = returned_shots_chain [OF run assms]
  {
    assume "0 < fsub ops (float_or (an_duration_seconds an) 0) (tenth ops)"
    with chain show "shots \<noteq> []" by blast
  }
  {
    assume "shots \<noteq> []"
    with chain show "shot_start_sec (hd shots) = 0"
      and "\<exists>c. fsub ops (float_or (an_duration_seconds an) 0) (tenth ops) \<le> c \<and>
               c \<le> float_or (an_duration_seconds an) 0 \<and>
               shot_end_sec (last shots) = fround ops c 4"
      by blast+
  }
  {
    fix i assume "Suc i < length shots"
    with chain show "shot_end_sec (shots ! i) = shot_start_sec (shots ! Suc i)" by blast
  }
qed

theorem shots_contiguous_to_last_cursor_witness:
  "fround exact_ops 0 4 = 0 \<and>
   0 < float_or (an_duration_seconds (bare_analysis (805 / 100) None)) 0 \<and>
   monotone_ops exact_ops \<and>
   advances exact_ops args0 (float_or (an_duration_seconds (bare_analysis (805 / 100) None)) 0)
     2 \<and>
   (\<exists>shots. build_shots exact_ops gen0 (bare_analysis (805 / 100) None) args0
               = Some (Inr shots) \<and>
      shots \<noteq> [] \<and> shot_start_sec (hd shots) = 0 \<and>
      (\<exists>c. 805 / 100 - 1 / 10 \<le> c \<and> c \<le> 805 / 100 \<and>
           shot_end_sec (last shots) = py_round c 4) \<and>
      shot_end_sec (shots ! 0) = shot_start_sec (shots ! 1))"
proof -
  let ?an = "bare_analysis (805 / 100) None"
  have z: "fround exact_ops 0 4 = 0"
    by (simp add: exact_ops_def py_round_zero)
  have d: "float_or (an_duration_seconds ?an) 0 = 805 / 100"
    by (simp add: bare_analysis_def float_or_def)
  have adv: "advances exact_ops args0 (805 / 100) 2"
    using advances_exact [of args0 "805 / 100"] by (simp add: args0_def)
  have ops: "fsub exact_ops = (-)" "tenth exact_ops = 1 / 10" "fround exact_ops = py_round"
    by (simp_all add: exact_ops_def)
  note inst = shots_contiguous_to_last_cursor [OF z, of ?an args0 2 gen0, unfolded d ops]
  from inst monotone_exact_ops adv obtain shots where
    run: "build_shots exact_ops gen0 ?an args0 = Some (Inr shots)"
    by auto
  from inst run have ne: "shots \<noteq> []" by auto
  with inst run have ends: "shot_start_sec (hd shots) = 0 \<and>
      (\<exists>c. 805 / 100 - 1 / 10 \<le> c \<and> c \<le> 805 / 100 \<and>
           shot_end_sec (last shots) = py_round c 4)"
    by blast
  have "case build_shots exact_ops gen0 ?an args0 of
          Some (Inr shots) \<Rightarrow> 1 < length shots | _ \<Rightarrow> False"
    by code_simp
  with run have "Suc 0 < length shots" by simp
  with inst run have "shot_end_sec (shots ! 0) = shot_start_sec (shots ! 1)"
    by (metis One_nat_def)
  with run ne ends have "\<exists>shots. build_shots exact_ops gen0 ?an args0 = Some (Inr shots) \<and>
      shots \<noteq> [] \<and> shot_start_sec (hd shots) = 0 \<and>
      (\<exists>c. 805 / 100 - 1 / 10 \<le> c \<and> c \<le> 805 / 100 \<and>
           shot_end_sec (last shots) = py_round c 4) \<and>
      shot_end_sec (shots ! 0) = shot_start_sec (shots ! 1)"
    by blast
  moreover have "0 < float_or (an_duration_seconds ?an) 0" unfolding d by simp
  moreover have "advances exact_ops args0 (float_or (an_duration_seconds ?an) 0) 2"
    unfolding d by (rule adv)
  ultimately show ?thesis using z monotone_exact_ops by blast
qed

text \<open>
  Claim C1 as stated fails. With the default arguments and a track of 8.05 seconds the
  shots are 0 to 2, 2 to 5 and 5 to 8: the loop stops at cursor 8, within 0.1 seconds of
  the end, and the last shot ends 0.05 seconds before the duration. With a track of 0.05
  seconds there is no shot at all.
\<close>

theorem last_shot_short_of_duration_counterexample:
  "(case build_shots exact_ops gen0 (bare_analysis (805 / 100) None) args0 of
      Some (Inr shots) \<Rightarrow> \<not> \<bar>shot_end_sec (last shots) - 805 / 100\<bar> \<le> 1 / 1000
    | _ \<Rightarrow> False) \<and>
   build_shots exact_ops gen0 (bare_analysis (5 / 100) None) args0 = Some (Inr [])"
  by code_simp

section \<open>Facts about a planning run\<close>

lemma same_creative_sym: "same_creative_parameters a b \<Longrightarrow> same_creative_parameters b a"
  by (simp add: same_creative_parameters_def)

lemma next_cursor_creative:
  assumes "same_creative_parameters a b"
  shows "next_cursor ops a duration_seconds beats beat_sec sections cursor shot_index =
         next_cursor ops b duration_seconds beats beat_sec sections cursor shot_index"
proof -
  from assms have "arg_min_shot_seconds a = arg_min_shot_seconds b"
    and "arg_max_shot_seconds a = arg_max_shot_seconds b"
    by (simp_all add: same_creative_parameters_def)
  then show ?thesis
    unfolding next_cursor_def shot_end_def by (simp only:)
qed

lemma takes_for_kind_creative:
  assumes "same_creative_parameters a b"
  shows "takes_for_kind shot_kind a = takes_for_kind shot_kind b"
proof -
  from assms have "arg_takes_hero a = arg_takes_hero b"
    and "arg_takes_standard a = arg_takes_standard b"
    and "arg_takes_filler a = arg_takes_filler b"
    by (simp_all add: same_creative_parameters_def)
  then show ?thesis
    unfolding takes_for_kind_def by (simp only:)
qed

lemma shot_at_creative:
  assumes "same_creative_parameters a b"
  shows "shot_at ops a duration_seconds beats beat_sec sections cursor shot_index prompt =
         shot_at ops b duration_seconds beats beat_sec sections cursor shot_index prompt"
  unfolding shot_at_def
  by (simp only: next_cursor_creative [OF assms] takes_for_kind_creative [OF assms])

lemma merge_tail_creative:
  assumes "same_creative_parameters a b"
  shows "merge_tail ops a shots = merge_tail ops b shots"
proof -
  from assms have "arg_min_shot_seconds a = arg_min_shot_seconds b"
    by (simp add: same_creative_parameters_def)
  then show ?thesis
    unfolding merge_tail_def by (simp only:)
qed

lemma shot_loop_creative_result:
  assumes run: "shot_loop ops gen a duration_seconds beats beat_sec sections cursor shot_index
                  rng shots = Some result"
    and same: "same_creative_parameters a b"
  shows "shot_loop ops gen b duration_seconds beats beat_sec sections cursor shot_index
           rng shots = Some result"
proof -
  let ?P = "\<lambda>ops (gen :: 'a prng) a' duration_seconds beats beat_sec sections cursor
              (shot_index :: nat) (rng :: 'a) shots result.
              a' = a \<longrightarrow>
              shot_loop ops gen b duration_seconds beats beat_sec sections cursor shot_index
                rng shots = Some result"
  from run have "?P ops gen a duration_seconds beats beat_sec sections cursor shot_index rng
                   shots result"
  proof (rule shot_loop.raw_induct [where P = ?P, rotated])
    fix f :: "float_ops \<Rightarrow> 'a prng \<Rightarrow> plan_args \<Rightarrow> real \<Rightarrow> real list \<Rightarrow> real \<Rightarrow>
                track_section list \<Rightarrow> real \<Rightarrow> nat \<Rightarrow> 'a \<Rightarrow> shot list \<Rightarrow> shot list option"
      and o' g a' d bs bb s c i r sh res
    assume IH: "\<And>o' g a' d bs bb s c i r sh res.
        f o' g a' d bs bb s c i r sh = Some res \<Longrightarrow> ?P o' g a' d bs bb s c i r sh res"
      and body: "(if c < fsub o' d (tenth o') then
        let section = find_section_at o' c s;
            section_label = (case sec_label section of None \<Rightarrow> ''section'' | Some l \<Rightarrow> l);
            energy = (case sec_energy section of None \<Rightarrow> ''medium'' | Some e \<Rightarrow> e);
            shot_kind = shot_type section_label energy i;
            end_sec = shot_end o' a' d bs bb shot_kind c;
            (prompt, rng) =
              build_prompt g r (arg_theme a') (arg_style_preset a') section_label
                (arg_brand a');
            shot = \<lparr>shot_id = ''shot_'' @ format_03d i,
                    shot_start_sec = fround o' c 4,
                    shot_end_sec = fround o' end_sec 4,
                    shot_duration_sec = fround o' (fsub o' end_sec c) 4,
                    shot_section = section_label,
                    shot_energy = energy,
                    shot_priority = shot_kind,
                    shot_visual_goal = section_descriptor section_label,
                    shot_prompt = prompt,
                    shot_negative_prompt = negative_prompt,
                    shot_quality_hint = quality_hint shot_kind,
                    shot_take_count = takes_for_kind shot_kind a',
                    shot_transition_after = ''cut''\<rparr>
        in f o' g a' d bs bb s end_sec (i + 1) rng (sh @ [shot])
      else Some sh) = Some res"
    show "?P o' g a' d bs bb s c i r sh res"
    proof
      assume eq: "a' = a"
      show "shot_loop o' g b d bs bb s c i r sh = Some res"
      proof (cases "c < fsub o' d (tenth o')")
        case False
        with body have "res = sh" by (simp only: if_False option.inject)
        with False show ?thesis by (simp add: shot_loop_stop)
      next
        case True
        obtain prompt rng' where bp: "build_prompt g r (arg_theme a) (arg_style_preset a)
            (label_at o' s c) (arg_brand a) = (prompt, rng')"
          by (cases "build_prompt g r (arg_theme a) (arg_style_preset a) (label_at o' s c)
                      (arg_brand a)") blast
        from same have "arg_theme a = arg_theme b" "arg_style_preset a = arg_style_preset b"
          "arg_brand a = arg_brand b"
          by (simp_all add: same_creative_parameters_def)
        with bp have bp': "build_prompt g r (arg_theme b) (arg_style_preset b)
            (label_at o' s c) (arg_brand b) = (prompt, rng')"
          by simp
        from body True have "f o' g a d bs bb s (next_cursor o' a d bs bb s c i) (i + 1) rng'
                       (sh @ [shot_at o' a d bs bb s c i prompt]) = Some res"
          unfolding eq by (simp only: if_True loop_body_call [OF bp])
        from IH [OF this]
        have "shot_loop o' g b d bs bb s (next_cursor o' b d bs bb s c i) (i + 1) rng'
                (sh @ [shot_at o' b d bs bb s c i prompt]) = Some res"
          by (simp add: next_cursor_creative [OF same] shot_at_creative [OF same])
        then show ?thesis
          by (simp only: shot_loop_step [OF True bp'])
      qed
    qed
  qed
  then show ?thesis by simp
qed

lemma shot_loop_creative:
  assumes "same_creative_parameters a b"
  shows "shot_loop ops gen a duration_seconds beats beat_sec sections cursor shot_index rng
           shots =
         shot_loop ops gen b duration_seconds beats beat_sec sections cursor shot_index rng
           shots"
proof (cases "shot_loop ops gen a duration_seconds beats beat_sec sections cursor shot_index
                rng shots")
  case (Some result)
  with shot_loop_creative_result [OF Some assms] show ?thesis by simp
next
  case None
  show ?thesis
  proof (cases "shot_loop ops gen b duration_seconds beats beat_sec sections cursor shot_index
                  rng shots")
    case none: None
    with None show ?thesis by simp
  next
    case (Some result)
    from assms have "same_creative_parameters b a" by (rule same_creative_sym)
    from shot_loop_creative_result [OF Some this] None
    show ?thesis by simp
  qed
qed

lemma build_shots_creative:
  assumes "same_creative_parameters a b"
  shows "build_shots ops gen an a = build_shots ops gen an b"
proof -
  have seed: "arg_seed a = arg_seed b"
    using assms by (simp add: same_creative_parameters_def)
  show ?thesis
    unfolding build_shots_def Let_def
    by (simp only: shot_loop_creative [OF assms] merge_tail_creative [OF assms] seed)
qed

lemma main_report_shots:
  "main_report env ops gen an args = Some (Inr r) \<Longrightarrow>
     build_shots ops gen an args = Some (Inr (rep_shots r))"
  by (auto simp: main_report_def Let_def split: if_splits option.splits sum.splits)

lemma main_report_runs:
  assumes "env_exists env (env_resolve env (arg_analysis args))"
    and "build_shots ops gen an args = Some (Inr shots)"
  shows "\<exists>r. main_report env ops gen an args = Some (Inr r) \<and>
             rep_plan_file r = resolve_output_path env (arg_output args)"
  using assms by (simp add: main_report_def Let_def)

text \<open>
  Claim C3. The shot list is a function of the analysis and the creative parameters, seed
  included: two runs of the planner on the same analysis content, with the same creative
  parameters, the same generator algorithm and the same arithmetic, behave alike, whatever
  the paths of the analysis file and of the output file, the working directories, the
  clocks and the file systems of the two runs are. Either both do not end, or both raise
  the same error, or both return the same shot list, field for field; and the shots of
  two reports are equal.
\<close>

theorem plan_shots_deterministic:
  assumes "same_creative_parameters args1 args2"
  shows "build_shots ops gen an args1 = build_shots ops gen an args2 \<and>
         (\<forall>r1 r2. main_report env1 ops gen an args1 = Some (Inr r1) \<longrightarrow>
                  main_report env2 ops gen an args2 = Some (Inr r2) \<longrightarrow>
                  rep_shots r1 = rep_shots r2)"
proof (intro conjI allI impI)
  show same: "build_shots ops gen an args1 = build_shots ops gen an args2"
    using assms by (rule build_shots_creative)
  fix r1 r2
  assume "main_report env1 ops gen an args1 = Some (Inr r1)"
    and "main_report env2 ops gen an args2 = Some (Inr r2)"
  then have "build_shots ops gen an args1 = Some (Inr (rep_shots r1))"
    and "build_shots ops gen an args2 = Some (Inr (rep_shots r2))"
    by (auto dest: main_report_shots)
  with same show "rep_shots r1 = rep_shots r2" by simp
qed

theorem plan_shots_deterministic_witness:
  "same_creative_parameters args0
     (args0\<lparr>arg_analysis := ''copy/b.json'', arg_output := Some ''out/plan.json''\<rparr>) \<and>
   (\<exists>r1 r2.
     main_report (env_at ''/work'' ''20240101-000000'') exact_ops gen0
       (bare_analysis (805 / 100) None) args0 = Some (Inr r1) \<and>
     main_report (env_at ''/home'' ''20250630-235959'') exact_ops gen0
       (bare_analysis (805 / 100) None)
       (args0\<lparr>arg_analysis := ''copy/b.json'', arg_output := Some ''out/plan.json''\<rparr>)
       = Some (Inr r2) \<and>
     rep_analysis_file r1 \<noteq> rep_analysis_file r2 \<and>
     rep_plan_file r1 \<noteq> rep_plan_file r2 \<and>
     rep_shots r1 \<noteq> [] \<and>
     rep_shots r1 = rep_shots r2)"
proof -
  let ?an = "bare_analysis (805 / 100) None"
  let ?args2 = "args0\<lparr>arg_analysis := ''copy/b.json'', arg_output := Some ''out/plan.json''\<rparr>"
  let ?e1 = "env_at ''/work'' ''20240101-000000''"
  let ?e2 = "env_at ''/home'' ''20250630-235959''"
  have same: "same_creative_parameters args0 ?args2"
    by (simp add: same_creative_parameters_def)
  have "case build_shots exact_ops gen0 ?an args0 of
          Some (Inr shots) \<Rightarrow> shots \<noteq> [] | _ \<Rightarrow> False"
    by code_simp
  then obtain shots where b1: "build_shots exact_ops gen0 ?an args0 = Some (Inr shots)"
    and ne: "shots \<noteq> []"
    by (auto split: option.splits sum.splits)
  from plan_shots_deterministic [OF same, of exact_ops gen0 ?an] b1
  have b2: "build_shots exact_ops gen0 ?an ?args2 = Some (Inr shots)" by simp
  have "env_exists ?e1 (env_resolve ?e1 (arg_analysis args0))"
    by (simp add: env_at_def)
  from main_report_runs [OF this b1] obtain r1 where
    r1: "main_report ?e1 exact_ops gen0 ?an args0 = Some (Inr r1)"
      "rep_plan_file r1 = resolve_output_path ?e1 (arg_output args0)"
    by blast
  have "env_exists ?e2 (env_resolve ?e2 (arg_analysis ?args2))"
    by (simp add: env_at_def)
  from main_report_runs [OF this b2] obtain r2 where
    r2: "main_report ?e2 exact_ops gen0 ?an ?args2 = Some (Inr r2)"
      "rep_plan_file r2 = resolve_output_path ?e2 (arg_output ?args2)"
    by blast
  have files: "rep_analysis_file r1 \<noteq> rep_analysis_file r2"
    using r1(1) r2(1) b1 b2
    by (auto simp: main_report_def Let_def env_at_def args0_def)
  have plans: "rep_plan_file r1 \<noteq> rep_plan_file r2"
    unfolding r1(2) r2(2) by (simp add: resolve_output_path_def env_at_def args0_def)
  have eq: "rep_shots r1 = rep_shots r2"
    using plan_shots_deterministic [OF same, of exact_ops gen0 ?an ?e1 ?e2] r1(1) r2(1)
    by blast
  have "rep_shots r1 \<noteq> []"
    using main_report_shots [OF r1(1)] b1 ne by simp
  with same r1(1) r2(1) files plans eq show ?thesis by blast
qed

section \<open>Facts about shot durations\<close>

lemma shot_end_span_upper:
  assumes "monotone_ops ops"
  shows "fsub ops (shot_end ops args duration_seconds beats beat_sec shot_kind cursor) cursor
           \<le> max (arg_max_shot_seconds args)
                (max (step_length ops cursor (arg_max_shot_seconds args))
                   (step_length ops cursor (max beat_sec (arg_min_shot_seconds args))))"
proof -
  let ?M = "arg_max_shot_seconds args" and ?m = "arg_min_shot_seconds args"
  define en where "en = shot_end ops args duration_seconds beats beat_sec shot_kind cursor"
  from assms have sub: "\<And>x y. x \<le> y \<Longrightarrow> fsub ops x cursor \<le> fsub ops y cursor"
    by (simp add: monotone_ops_def)
  from shot_end_branches [of duration_seconds ops cursor args beats beat_sec shot_kind]
  consider (reset) "en = min duration_seconds (fadd ops cursor (max beat_sec ?m))"
    | (cut) "en = min duration_seconds (fadd ops cursor ?M)"
    | (keep) "fsub ops en cursor \<le> ?M"
    unfolding en_def [symmetric] by (auto simp: not_less)
  then have "fsub ops en cursor
           \<le> max ?M (max (step_length ops cursor ?M) (step_length ops cursor (max beat_sec ?m)))"
  proof cases
    case reset
    then have "en \<le> fadd ops cursor (max beat_sec ?m)" by simp
    then have "fsub ops en cursor \<le> step_length ops cursor (max beat_sec ?m)"
      unfolding step_length_def by (rule sub)
    then show ?thesis by (simp add: le_max_iff_disj)
  next
    case cut
    then have "en \<le> fadd ops cursor ?M" by simp
    then have "fsub ops en cursor \<le> step_length ops cursor ?M"
      unfolding step_length_def by (rule sub)
    then show ?thesis by (simp add: le_max_iff_disj)
  next
    case keep
    then show ?thesis by (simp add: le_max_iff_disj)
  qed
  then show ?thesis unfolding en_def .
qed

lemma shot_end_span_lower:
  assumes mono: "monotone_ops ops"
    and le: "arg_min_shot_seconds args \<le> arg_max_shot_seconds args"
    and inside: "shot_end ops args duration_seconds beats beat_sec shot_kind cursor
                   < duration_seconds"
  shows "step_length ops cursor (arg_min_shot_seconds args)
           \<le> fsub ops (shot_end ops args duration_seconds beats beat_sec shot_kind cursor)
                cursor"
proof -
  let ?M = "arg_max_shot_seconds args" and ?m = "arg_min_shot_seconds args"
  define en where "en = shot_end ops args duration_seconds beats beat_sec shot_kind cursor"
  from mono have sub: "\<And>x y. x \<le> y \<Longrightarrow> fsub ops x cursor \<le> fsub ops y cursor"
    and add: "\<And>x y. x \<le> y \<Longrightarrow> fadd ops cursor x \<le> fadd ops cursor y"
    by (simp_all add: monotone_ops_def)
  from inside have inside': "en < duration_seconds" unfolding en_def .
  from shot_end_branches [of duration_seconds ops cursor args beats beat_sec shot_kind]
  consider (reset) "en = min duration_seconds (fadd ops cursor (max beat_sec ?m))"
    | (cut) "en = min duration_seconds (fadd ops cursor ?M)"
    | (keep) "en < duration_seconds \<longrightarrow> fadd ops cursor ?m \<le> en"
    unfolding en_def [symmetric] by auto
  then have "fadd ops cursor ?m \<le> en"
  proof cases
    case reset
    with inside' have "en = fadd ops cursor (max beat_sec ?m)"
      by (simp add: min_def split: if_splits)
    moreover have "fadd ops cursor ?m \<le> fadd ops cursor (max beat_sec ?m)"
      by (rule add) simp
    ultimately show ?thesis by simp
  next
    case cut
    with inside' have "en = fadd ops cursor ?M"
      by (simp add: min_def split: if_splits)
    moreover have "fadd ops cursor ?m \<le> fadd ops cursor ?M"
      using le by (rule add)
    ultimately show ?thesis by simp
  next
    case keep
    with inside' show ?thesis by simp
  qed
  then show ?thesis
    unfolding step_length_def en_def by (rule sub)
qed

lemma planned_shot_bounds:
  fixes shot :: shot
  assumes mono: "monotone_ops ops"
    and start: "shot_start_sec shot = fround ops cursor 4"
    and dur: "shot_duration_sec shot =
         fround ops (fsub ops (next_cursor ops args duration_seconds beats beat_sec sections
                                 cursor shot_index) cursor) 4"
  shows "within_max ops args beat_sec cursor shot \<and>
         (next_cursor ops args duration_seconds beats beat_sec sections cursor shot_index
            < duration_seconds \<and>
          arg_min_shot_seconds args \<le> arg_max_shot_seconds args \<longrightarrow>
            at_least_min ops args cursor shot)"
proof -
  from mono have rnd: "\<And>x y. x \<le> y \<Longrightarrow> fround ops x 4 \<le> fround ops y 4"
    by (simp add: monotone_ops_def)
  have "within_max ops args beat_sec cursor shot"
    unfolding within_max_def dur next_cursor_def
    using start by (intro conjI rnd shot_end_span_upper [OF mono])
  moreover have "at_least_min ops args cursor shot"
    if "next_cursor ops args duration_seconds beats beat_sec sections cursor shot_index
          < duration_seconds"
      and "arg_min_shot_seconds args \<le> arg_max_shot_seconds args"
    unfolding at_least_min_def dur next_cursor_def
    using that by (intro rnd shot_end_span_lower [OF mono]) (simp_all add: next_cursor_def)
  ultimately show ?thesis by blast
qed

lemma merge_tail_unmerged: "\<not> tail_merged args shots \<Longrightarrow> merge_tail ops args shots = shots"
  by (auto simp: tail_merged_def merge_tail_def Let_def)

lemma merge_tail_merged:
  assumes "tail_merged args shots"
  shows "\<exists>ys p t. shots = ys @ [p, t] \<and>
           merge_tail ops args shots =
             ys @ [p\<lparr>shot_end_sec := shot_end_sec t,
                      shot_duration_sec :=
                        fround ops (fsub ops (shot_end_sec t) (shot_start_sec p)) 4\<rparr>]"
proof -
  from assms have "2 \<le> length shots" by (simp add: tail_merged_def)
  then obtain ys p t where shots: "shots = ys @ [p, t]" using two_last by blast
  with assms have "shot_duration_sec t < arg_min_shot_seconds args"
    by (simp add: tail_merged_def)
  with shots show ?thesis by (auto simp: merge_tail_snoc2)
qed

text \<open>
  Claim C4, as amended. Whenever the planner returns a shot list (\<open>planner_returns\<close> says
  when it does), with arithmetic that is monotone: every shot but the last was planned at a cursor \<open>c\<close> inside the loop, starts at
  \<open>round(c, 4)\<close>, and has a duration of at most \<open>round(max(M, (c + M) - c, (c + max(b, m))
  - c), 4)\<close>, for the minimum \<open>m\<close>, the maximum \<open>M\<close> and the beat interval \<open>b\<close>, and, if
  \<open>m \<le> M\<close>, of at least \<open>round((c + m) - c, 4)\<close>. When the post-pass has not merged the
  tail, the last shot has the same upper bound, and a duration of at least \<open>m\<close> unless it
  is the only shot. When the post-pass has merged the tail, the last shot is the merged
  one: its duration is \<open>round(end - start, 4)\<close> from the start of the shot before the tail
  to the end of the tail, and neither bound holds of it.
\<close>

theorem shot_durations_bounded:
  assumes "build_shots ops gen an args = Some (Inr shots)"
    and "monotone_ops ops"
  shows "\<exists>raw. planned_shots ops gen an args = Some raw \<and>
           shots = merge_tail ops args raw \<and>
           (\<forall>i. Suc i < length shots \<longrightarrow>
              (\<exists>c. c < fsub ops (float_or (an_duration_seconds an) 0) (tenth ops) \<and>
                   within_max ops args (beat_sec_of ops an) c (shots ! i) \<and>
                   (arg_min_shot_seconds args \<le> arg_max_shot_seconds args \<longrightarrow>
                      at_least_min ops args c (shots ! i)))) \<and>
           (shots \<noteq> [] \<and> \<not> tail_merged args raw \<longrightarrow>
              (\<exists>c. c < fsub ops (float_or (an_duration_seconds an) 0) (tenth ops) \<and>
                   within_max ops args (beat_sec_of ops an) c (last shots)) \<and>
              (2 \<le> length shots \<longrightarrow>
                 arg_min_shot_seconds args \<le> shot_duration_sec (last shots))) \<and>
           (tail_merged args raw \<longrightarrow>
              length shots = length raw - 1 \<and>
              shot_start_sec (last shots) = shot_start_sec (raw ! (length raw - 2)) \<and>
              shot_end_sec (last shots) = shot_end_sec (last raw) \<and>
              shot_duration_sec (last shots) =
                fround ops (fsub ops (shot_end_sec (last raw))
                              (shot_start_sec (raw ! (length raw - 2)))) 4)"
proof -
  let ?D = "float_or (an_duration_seconds an) 0"
  let ?G = "fsub ops ?D (tenth ops)"
  let ?b = "beat_sec_of ops an"
  let ?le = "arg_min_shot_seconds args \<le> arg_max_shot_seconds args"
  define U where "U = (\<lambda>s. \<exists>c. c < ?G \<and> within_max ops args ?b c s)"
  define Q where "Q = (\<lambda>s. \<exists>c. c < ?G \<and> within_max ops args ?b c s \<and>
                              (?le \<longrightarrow> at_least_min ops args c s))"
  define J where "J = (\<lambda>c shots. (\<forall>s \<in> set (butlast shots). Q s) \<and>
                         (shots \<noteq> [] \<longrightarrow> U (last shots) \<and> (c < ?D \<longrightarrow> Q (last shots))))"
  from assms(2) have G: "?G \<le> ?D" by (simp add: monotone_ops_def)
  from assms(1) obtain raw where raw: "planned_shots ops gen an args = Some raw"
    and shots: "shots = merge_tail ops args raw"
    by (auto simp: build_shots_planned)
  have "J 0 []" by (simp add: J_def)
  with raw [unfolded planned_shots_def]
  have "\<exists>c. \<not> c < ?G \<and> J c raw"
  proof (rule shot_loop_invariant)
    fix cursor :: real and shot_index :: nat and shots :: "shot list" and shot :: shot
    let ?next = "next_cursor ops args ?D (filter (\<lambda>v. 0 \<le> v) (an_beats an))
               (beat_interval ops (filter (\<lambda>v. 0 \<le> v) (an_beats an)) (float_or (an_bpm an) 120))
               (an_sections an) cursor shot_index"
    assume inv: "J cursor shots" and guard: "cursor < ?G"
      and start: "shot_start_sec shot = fround ops cursor 4"
      and dur: "shot_duration_sec shot = fround ops (fsub ops ?next cursor) 4"
    from planned_shot_bounds [OF assms(2) start dur]
    have up: "within_max ops args ?b cursor shot"
      and low: "?next < ?D \<and> ?le \<longrightarrow> at_least_min ops args cursor shot"
      unfolding beat_sec_of_def by blast+
    from guard G have "cursor < ?D" by simp
    with inv have "\<forall>s \<in> set shots. Q s"
      by (cases shots rule: rev_cases) (auto simp: J_def)
    moreover from up guard have "U shot" unfolding U_def by blast
    moreover from up low guard have "?next < ?D \<longrightarrow> Q shot" unfolding Q_def by blast
    ultimately show "J ?next (shots @ [shot])" by (simp add: J_def)
  qed
  then have before: "\<forall>s \<in> set (butlast raw). Q s" and last: "raw \<noteq> [] \<longrightarrow> U (last raw)"
    by (auto simp: J_def)
  have inner: "\<forall>i. Suc i < length shots \<longrightarrow> Q (shots ! i)"
  proof (intro allI impI)
    fix i assume i: "Suc i < length shots"
    show "Q (shots ! i)"
    proof (cases "tail_merged args raw")
      case False
      then have eq: "shots = raw" by (simp add: shots merge_tail_unmerged)
      with i have "raw ! i = butlast raw ! i" and "i < length (butlast raw)"
        by (simp_all add: nth_butlast)
      then have "raw ! i \<in> set (butlast raw)" by (metis nth_mem)
      with before eq show ?thesis by simp
    next
      case True
      from merge_tail_merged [OF this, of ops] obtain ys p t where r: "raw = ys @ [p, t]"
        and m: "shots = ys @ [p\<lparr>shot_end_sec := shot_end_sec t,
                      shot_duration_sec :=
                        fround ops (fsub ops (shot_end_sec t) (shot_start_sec p)) 4\<rparr>]"
        unfolding shots by blast
      from i m have "i < length ys" by simp
      then have "shots ! i = ys ! i" and "ys ! i \<in> set (butlast raw)"
        by (simp_all add: m r nth_append butlast_append)
      with before show ?thesis by simp
    qed
  qed
  have unmerged: "shots \<noteq> [] \<and> \<not> tail_merged args raw \<longrightarrow>
              U (last shots) \<and>
              (2 \<le> length shots \<longrightarrow>
                 arg_min_shot_seconds args \<le> shot_duration_sec (last shots))"
  proof (intro impI, elim conjE)
    assume ne: "shots \<noteq> []" and no: "\<not> tail_merged args raw"
    then have eq: "shots = raw" by (simp add: shots merge_tail_unmerged)
    with ne last have "U (last shots)" by simp
    moreover from no have "2 \<le> length shots \<longrightarrow>
                 arg_min_shot_seconds args \<le> shot_duration_sec (last shots)"
      by (auto simp: eq tail_merged_def)
    ultimately show "U (last shots) \<and>
              (2 \<le> length shots \<longrightarrow>
                 arg_min_shot_seconds args \<le> shot_duration_sec (last shots))" ..
  qed
  have merged: "tail_merged args raw \<longrightarrow>
              length shots = length raw - 1 \<and>
              shot_start_sec (last shots) = shot_start_sec (raw ! (length raw - 2)) \<and>
              shot_end_sec (last shots) = shot_end_sec (last raw) \<and>
              shot_duration_sec (last shots) =
                fround ops (fsub ops (shot_end_sec (last raw))
                              (shot_start_sec (raw ! (length raw - 2)))) 4"
  proof
    assume "tail_merged args raw"
    from merge_tail_merged [OF this, of ops] obtain ys p t where r: "raw = ys @ [p, t]"
      and m: "shots = ys @ [p\<lparr>shot_end_sec := shot_end_sec t,
                    shot_duration_sec :=
                      fround ops (fsub ops (shot_end_sec t) (shot_start_sec p)) 4\<rparr>]"
      unfolding shots by blast
    show "length shots = length raw - 1 \<and>
              shot_start_sec (last shots) = shot_start_sec (raw ! (length raw - 2)) \<and>
              shot_end_sec (last shots) = shot_end_sec (last raw) \<and>
              shot_duration_sec (last shots) =
                fround ops (fsub ops (shot_end_sec (last raw))
                              (shot_start_sec (raw ! (length raw - 2)))) 4"
      by (simp add: m r nth_append)
  qed
  from raw shots inner unmerged merged show ?thesis
    unfolding Q_def U_def by blast
qed

theorem shot_durations_bounded_witness:
  "monotone_ops exact_ops \<and>
   arg_min_shot_seconds args0 \<le> arg_max_shot_seconds args0 \<and>
   (\<exists>shots raw.
      build_shots exact_ops gen0 (bare_analysis (805 / 100) None) args0 = Some (Inr shots) \<and>
      planned_shots exact_ops gen0 (bare_analysis (805 / 100) None) args0 = Some raw \<and>
      \<not> tail_merged args0 raw \<and> length shots = 3 \<and>
      (\<exists>c. within_max exact_ops args0 (1 / 2) c (shots ! 0) \<and>
           at_least_min exact_ops args0 c (shots ! 0)) \<and>
      2 \<le> shot_duration_sec (shots ! 1) \<and> shot_duration_sec (shots ! 1) \<le> 4 \<and>
      2 \<le> shot_duration_sec (last shots) \<and> shot_duration_sec (last shots) \<le> 4) \<and>
   (\<exists>shots raw.
      build_shots exact_ops gen0 (bare_analysis (99 / 10) (Some 60)) args0
        = Some (Inr shots) \<and>
      planned_shots exact_ops gen0 (bare_analysis (99 / 10) (Some 60)) args0 = Some raw \<and>
      tail_merged args0 raw \<and> length shots = 2 \<and>
      shot_duration_sec (shots ! 0) \<le> 4 \<and>
      shot_duration_sec (last shots)
        = py_round (shot_end_sec (last raw) - shot_start_sec (raw ! 1)) 4)"
proof -
  let ?a = "bare_analysis (805 / 100) None" and ?b = "bare_analysis (99 / 10) (Some 60)"
  have m: "arg_min_shot_seconds args0 = 2" "arg_max_shot_seconds args0 = 4"
    by (simp_all add: args0_def)
  have r4: "py_round 4 4 = 4" "py_round 2 4 = 2"
    by (simp_all add: py_round_def round_half_even_def)
  have ba: "beat_sec_of exact_ops ?a = 1 / 2"
    by (simp add: beat_sec_of_def bare_analysis_def beat_interval_def float_or_def
        exact_ops_def)
  have bb: "beat_sec_of exact_ops ?b = 1"
    by (simp add: beat_sec_of_def bare_analysis_def beat_interval_def float_or_def
        exact_ops_def)
  have rnd: "fround exact_ops = py_round" "fsub exact_ops = (-)"
    by (simp_all add: exact_ops_def)
  have bound: "shot_duration_sec s \<le> 4" if "within_max exact_ops args0 b c s" "b \<le> 4"
    for s :: shot and b c
  proof -
    from that(2) have "max 4 (max 4 (max b 2)) = (4 :: real)" by simp
    with that(1) show ?thesis
      by (simp add: within_max_def step_length_exact m rnd r4)
  qed
  have least: "2 \<le> shot_duration_sec s" if "at_least_min exact_ops args0 c s"
    for s :: shot and c
    using that by (simp add: at_least_min_def step_length_exact m rnd r4)
  have "case build_shots exact_ops gen0 ?a args0 of
          Some (Inr shots) \<Rightarrow> length shots = 3 | _ \<Rightarrow> False"
    by code_simp
  then obtain shots where run: "build_shots exact_ops gen0 ?a args0 = Some (Inr shots)"
    and len: "length shots = 3"
    by (auto split: option.splits sum.splits)
  have no: "case planned_shots exact_ops gen0 ?a args0 of
          Some raw \<Rightarrow> \<not> tail_merged args0 raw | None \<Rightarrow> False"
    by code_simp
  from shot_durations_bounded [OF run monotone_exact_ops] obtain raw where
    raw: "planned_shots exact_ops gen0 ?a args0 = Some raw"
    and inner: "\<forall>i. Suc i < length shots \<longrightarrow>
              (\<exists>c. c < fsub exact_ops (float_or (an_duration_seconds ?a) 0) (tenth exact_ops) \<and>
                   within_max exact_ops args0 (beat_sec_of exact_ops ?a) c (shots ! i) \<and>
                   (arg_min_shot_seconds args0 \<le> arg_max_shot_seconds args0 \<longrightarrow>
                      at_least_min exact_ops args0 c (shots ! i)))"
    and final: "shots \<noteq> [] \<and> \<not> tail_merged args0 raw \<longrightarrow>
              (\<exists>c. c < fsub exact_ops (float_or (an_duration_seconds ?a) 0) (tenth exact_ops) \<and>
                   within_max exact_ops args0 (beat_sec_of exact_ops ?a) c (last shots)) \<and>
              (2 \<le> length shots \<longrightarrow>
                 arg_min_shot_seconds args0 \<le> shot_duration_sec (last shots))"
    by blast
  from no raw have unmerged: "\<not> tail_merged args0 raw" by simp
  from len have ne: "shots \<noteq> []" by auto
  from inner [rule_format, of 0] len obtain c0 where
    "within_max exact_ops args0 (1 / 2) c0 (shots ! 0)"
    "at_least_min exact_ops args0 c0 (shots ! 0)"
    unfolding ba by (auto simp: m)
  then have s0: "\<exists>c. within_max exact_ops args0 (1 / 2) c (shots ! 0) \<and>
           at_least_min exact_ops args0 c (shots ! 0)" by blast
  from inner [rule_format, of 1] len obtain c1 where
    "within_max exact_ops args0 (1 / 2) c1 (shots ! 1)"
    "at_least_min exact_ops args0 c1 (shots ! 1)"
    unfolding ba by (auto simp: m)
  then have s1: "2 \<le> shot_duration_sec (shots ! 1) \<and> shot_duration_sec (shots ! 1) \<le> 4"
    using bound [of "1 / 2" c1 "shots ! 1"] least [of c1 "shots ! 1"] by simp
  from final ne unmerged len obtain c2 where
    "within_max exact_ops args0 (1 / 2) c2 (last shots)"
    and "2 \<le> shot_duration_sec (last shots)"
    unfolding ba by (auto simp: m)
  then have s2: "2 \<le> shot_duration_sec (last shots) \<and> shot_duration_sec (last shots) \<le> 4"
    using bound [of "1 / 2" c2 "last shots"] by simp
  have first: "\<exists>shots raw.
      build_shots exact_ops gen0 ?a args0 = Some (Inr shots) \<and>
      planned_shots exact_ops gen0 ?a args0 = Some raw \<and>
      \<not> tail_merged args0 raw \<and> length shots = 3 \<and>
      (\<exists>c. within_max exact_ops args0 (1 / 2) c (shots ! 0) \<and>
           at_least_min exact_ops args0 c (shots ! 0)) \<and>
      2 \<le> shot_duration_sec (shots ! 1) \<and> shot_duration_sec (shots ! 1) \<le> 4 \<and>
      2 \<le> shot_duration_sec (last shots) \<and> shot_duration_sec (last shots) \<le> 4"
    using run raw unmerged len s0 s1 s2 by blast
  have "case build_shots exact_ops gen0 ?b args0 of
          Some (Inr shots) \<Rightarrow> length shots = 2 | _ \<Rightarrow> False"
    by code_simp
  then obtain shots' where run': "build_shots exact_ops gen0 ?b args0 = Some (Inr shots')"
    and len': "length shots' = 2"
    by (auto split: option.splits sum.splits)
  have yes: "case planned_shots exact_ops gen0 ?b args0 of
          Some raw \<Rightarrow> tail_merged args0 raw \<and> length raw = 3 | None \<Rightarrow> False"
    by code_simp
  from shot_durations_bounded [OF run' monotone_exact_ops] obtain raw' where
    raw': "planned_shots exact_ops gen0 ?b args0 = Some raw'"
    and inner': "\<forall>i. Suc i < length shots' \<longrightarrow>
              (\<exists>c. c < fsub exact_ops (float_or (an_duration_seconds ?b) 0) (tenth exact_ops) \<and>
                   within_max exact_ops args0 (beat_sec_of exact_ops ?b) c (shots' ! i) \<and>
                   (arg_min_shot_seconds args0 \<le> arg_max_shot_seconds args0 \<longrightarrow>
                      at_least_min exact_ops args0 c (shots' ! i)))"
    and final': "tail_merged args0 raw' \<longrightarrow>
              length shots' = length raw' - 1 \<and>
              shot_start_sec (last shots') = shot_start_sec (raw' ! (length raw' - 2)) \<and>
              shot_end_sec (last shots') = shot_end_sec (last raw') \<and>
              shot_duration_sec (last shots') =
                fround exact_ops (fsub exact_ops (shot_end_sec (last raw'))
                              (shot_start_sec (raw' ! (length raw' - 2)))) 4"
    by blast
  from yes raw' have merged: "tail_merged args0 raw'" and len3: "length raw' = 3" by simp_all
  from inner' [rule_format, of 0] len' obtain d0 where
    "within_max exact_ops args0 1 d0 (shots' ! 0)"
    unfolding bb by auto
  then have t0: "shot_duration_sec (shots' ! 0) \<le> 4"
    using bound [of 1 d0 "shots' ! 0"] by simp
  from final' merged len3 have t1: "shot_duration_sec (last shots')
        = py_round (shot_end_sec (last raw') - shot_start_sec (raw' ! 1)) 4"
    by (simp add: rnd)
  have second: "\<exists>shots raw.
      build_shots exact_ops gen0 ?b args0 = Some (Inr shots) \<and>
      planned_shots exact_ops gen0 ?b args0 = Some raw \<and>
      tail_merged args0 raw \<and> length shots = 2 \<and>
      shot_duration_sec (shots ! 0) \<le> 4 \<and>
      shot_duration_sec (last shots)
        = py_round (shot_end_sec (last raw) - shot_start_sec (raw ! 1)) 4"
    using run' raw' merged len' t0 t1 by blast
  from monotone_exact_ops first second show ?thesis by (simp add: m)
qed

text \<open>
  Claim C4 as stated fails, in both halves. A track of one second gives a single shot of
  one second, shorter than the minimum of two and not the result of a merge. A track of
  9.9 seconds at 60 BPM gives the shots 0 to 4, 4 to 8 and 8 to 9.9; the last is merged
  into the one before, which becomes 5.9 seconds long, more than the maximum of four plus
  the beat interval of one. And with a minimum of two seconds and a maximum of one, on a
  track of ten seconds, the first shot runs from 0 to 1: it is shorter than the minimum,
  and no merge has touched it.
\<close>

theorem shot_duration_bounds_counterexample:
  "(case build_shots exact_ops gen0 (bare_analysis 1 None) args0 of
      Some (Inr shots) \<Rightarrow>
        (case planned_shots exact_ops gen0 (bare_analysis 1 None) args0 of
           Some raw \<Rightarrow> \<not> tail_merged args0 raw
         | None \<Rightarrow> False) \<and>
        length shots = 1 \<and> shot_duration_sec (last shots) < arg_min_shot_seconds args0
    | _ \<Rightarrow> False) \<and>
   (case build_shots exact_ops gen0 (bare_analysis (99 / 10) (Some 60)) args0 of
      Some (Inr shots) \<Rightarrow>
        arg_max_shot_seconds args0 + beat_sec_of exact_ops (bare_analysis (99 / 10) (Some 60))
          < shot_duration_sec (last shots)
    | _ \<Rightarrow> False) \<and>
   (case build_shots exact_ops gen0 (bare_analysis 10 None)
           (args0\<lparr>arg_min_shot_seconds := 2, arg_max_shot_seconds := 1\<rparr>) of
      Some (Inr shots) \<Rightarrow>
        1 < length shots \<and> shot_start_sec (hd shots) = 0 \<and> shot_end_sec (hd shots) = 1 \<and>
        shot_duration_sec (hd shots) < 2
    | _ \<Rightarrow> False)"
  by code_simp

end
